theory Spec2Isabelle
  imports Main "HOL-Library.Word" "HOL-Library.Sublist" "HOL-Library.Multiset"
begin

section \<open>The environment of Detection.py\<close>

text \<open>
  Detection.py talks to three things outside itself: the file system
  (\<^verbatim>\<open>os.walk\<close>, \<^verbatim>\<open>os.path.getsize\<close>, \<^verbatim>\<open>open\<close> and \<^verbatim>\<open>read\<close>), the MD5 hasher of
  \<^verbatim>\<open>hashlib\<close>, and the console (\<^verbatim>\<open>print\<close>). The file system is a snapshot value
  handed to each pass, the digest function is a parameter, and what the program
  prints and opens is returned as a list of events.
\<close>

type_synonym byte = "8 word"
type_synonym path = string

text \<open>An \<^verbatim>\<open>OSError\<close>, carrying the text that \<^verbatim>\<open>str(e)\<close> gives.\<close>

datatype os_error = OSError string

text \<open>
  What \<^verbatim>\<open>f.read(n)\<close> can raise: an \<^verbatim>\<open>OSError\<close> of the device, or the refusal of
  its argument, \<^verbatim>\<open>OverflowError\<close> for an \<open>n\<close> that does not fit the signed
  64-bit index type or is too large for a bytes object, \<^verbatim>\<open>ValueError\<close> for an
  \<open>n\<close> below -1, and \<^verbatim>\<open>MemoryError\<close> when the buffer of \<open>n\<close> bytes cannot be
  allocated.
\<close>

datatype read_exception = OS os_error | ValueError | OverflowError | MemoryError

text \<open>
  An opened binary file: its bytes, and possibly an offset whose byte cannot be
  read (a read that covers that offset raises the given error).
\<close>

record file_obj =
  content :: "byte list"
  fault :: "(nat \<times> os_error) option"

text \<open>
  What \<^verbatim>\<open>os.scandir\<close> shows of a directory. \<open>NoListing\<close> stands for a path
  whose scan raises \<^verbatim>\<open>OSError\<close> (missing, not a directory, not permitted) and for
  a symbolic link to a directory, which \<^verbatim>\<open>os.walk\<close> does not descend into.
  \<open>Listing nondirs dirs\<close> gives the names that are not directories and the
  sub-directories, each in scan order.
\<close>

datatype dir_node = NoListing | Listing "string list" "(string \<times> dir_node) list"

text \<open>
  What the machine answers to the program: the scan of a directory, the size of
  a file, the opening of a file, and \<open>buffer_max\<close>, the size in bytes of the
  largest read buffer it can allocate.
\<close>

record filesystem =
  scandir_tree :: "path \<Rightarrow> dir_node"
  getsize :: "path \<Rightarrow> os_error + nat"
  open_rb :: "path \<Rightarrow> os_error + file_obj"
  buffer_max :: nat

text \<open>The effects of the program that the properties below talk about.\<close>

datatype event = Open path | Print string

subsection \<open>\<^verbatim>\<open>os.path.join\<close> and \<^verbatim>\<open>os.walk\<close>\<close>

text \<open>
  \<^verbatim>\<open>posixpath.join(a, b)\<close>: an absolute \<open>b\<close> replaces \<open>a\<close>; an empty \<open>a\<close>
  or one that ends with the separator takes \<open>b\<close> directly; otherwise a
  separator is put between them.
\<close>

definition path_join :: "path \<Rightarrow> path \<Rightarrow> path" where
  "path_join a b =
     (if take 1 b = ''/'' then b
      else if a = [] \<or> drop (length a - 1) a = ''/'' then a @ b
      else a @ ''/'' @ b)"

text \<open>
  \<^verbatim>\<open>os.walk(top)\<close> with its defaults (top-down, \<^verbatim>\<open>onerror=None\<close>, links not
  followed): a directory that cannot be scanned yields nothing, and the error is
  dropped; otherwise the triple of the directory comes first and the walks of
  its sub-directories follow in order.
\<close>

fun os_walk :: "path \<Rightarrow> dir_node \<Rightarrow> (path \<times> string list \<times> string list) list" where
  "os_walk topdir NoListing = []"
| "os_walk topdir (Listing nondirs dirs) =
     (topdir, map fst dirs, nondirs) #
     concat (map (\<lambda>d. os_walk (path_join topdir (fst d)) (snd d)) dirs)"

subsection \<open>Reading a file object\<close>

text \<open>
  \<^verbatim>\<open>f.read(n)\<close> at offset \<open>pos\<close>, on a machine whose largest read buffer has
  \<open>mem\<close> bytes. The argument is checked first, before any byte is read: it
  must fit the index type and be -1 or more. For an \<open>n\<close> of 0 or more a buffer
  of \<open>n\<close> bytes is then allocated, whatever the length of the file: a bytes
  object has a header of 33 bytes and its size must fit the index type, and
  the machine must have the memory. The memory is taken to suffice for the
  default block of 65536 bytes, as it is for every other statement of the
  program. Then the read gives up to \<open>n\<close> bytes, all remaining bytes when \<open>n\<close>
  is -1, or the error when the bytes asked for include the faulty offset. The
  offset advances by the number of bytes returned.
\<close>

definition f_read :: "nat \<Rightarrow> file_obj \<Rightarrow> nat \<Rightarrow> int \<Rightarrow> read_exception + byte list" where
  "f_read mem f pos n =
     (if n < - (2 ^ 63) \<or> 2 ^ 63 \<le> n then Inl OverflowError
      else if n < - 1 then Inl ValueError
      else if 2 ^ 63 - 33 \<le> n then Inl OverflowError
      else if 65536 < n \<and> int mem < n then Inl MemoryError
      else
        (let chunk = (if n = - 1 then drop pos (content f)
                      else take (nat n) (drop pos (content f)))
         in case fault f of
              None \<Rightarrow> Inr chunk
            | Some (k, e) \<Rightarrow>
                if pos \<le> k \<and> k < pos + length chunk then Inl (OS e) else Inr chunk))"

subsection \<open>The hasher\<close>

text \<open>
  A \<^verbatim>\<open>hashlib\<close> hasher is the sequence of blocks fed to it so far, one for each
  \<^verbatim>\<open>update\<close>. By the library's contract \<^verbatim>\<open>update(a); update(b)\<close> is
  \<^verbatim>\<open>update(a + b)\<close>, so the digest is a function \<open>md5\<close>, 128 bits wide, of the
  blocks put end to end. \<^verbatim>\<open>hexdigest()\<close> writes it as 32 lower-case hexadecimal
  digits.
\<close>

definition hex_digit :: "nat \<Rightarrow> char" where
  "hex_digit d = ''0123456789abcdef'' ! (d mod 16)"

fun hex_digits :: "nat \<Rightarrow> nat \<Rightarrow> string" where
  "hex_digits 0 n = []"
| "hex_digits (Suc k) n = hex_digits k (n div 16) @ [hex_digit n]"

definition hexdigest :: "128 word \<Rightarrow> string" where
  "hexdigest w = hex_digits 32 (unat w)"

section \<open>Detection.py\<close>

text \<open>
  A Python \<^verbatim>\<open>dict\<close> keeps its keys in insertion order, and both passes iterate
  over it, so a dictionary of lists is an association list. The state of each
  pass is its dictionary and the events so far.
\<close>

record 'k acc =
  groups :: "('k \<times> path list) list"
  trace :: "event list"

text \<open>
  \<^verbatim>\<open>d[k].append(v)\<close> on a \<^verbatim>\<open>defaultdict(list)\<close>: a new key is inserted last with
  the list \<^verbatim>\<open>[v]\<close>, a present key gets \<open>v\<close> at the end of its list.
\<close>

fun dd_append :: "'k \<Rightarrow> path \<Rightarrow> ('k \<times> path list) list \<Rightarrow> ('k \<times> path list) list" where
  "dd_append k v [] = [(k, [v])]"
| "dd_append k v ((k', vs) # rest) =
     (if k' = k then (k', vs @ [v]) # rest else (k', vs) # dd_append k v rest)"

text \<open>The comprehension \<^verbatim>\<open>{k: paths for k, paths in d.items() if len(paths) > 1}\<close>.\<close>

definition drop_unique :: "('k \<times> path list) list \<Rightarrow> ('k \<times> path list) list" where
  "drop_unique d = filter (\<lambda>(k, paths). length paths > 1) d"

subsection \<open>\<^verbatim>\<open>find_duplicates_by_size\<close>\<close>

text \<open>The body of the inner loop, lines 19 to 24.\<close>

definition size_step :: "filesystem \<Rightarrow> path \<Rightarrow> string \<Rightarrow> nat acc \<Rightarrow> nat acc" where
  "size_step fs root file st =
     (let file_path = path_join root file in
      case getsize fs file_path of
        Inr file_size \<Rightarrow> st\<lparr>groups := dd_append file_size file_path (groups st)\<rparr>
      | Inl (OSError e) \<Rightarrow>
          st\<lparr>trace := trace st @ [Print (''Error accessing '' @ file_path @ '': '' @ e)]\<rparr>)"

fun size_files :: "filesystem \<Rightarrow> path \<Rightarrow> string list \<Rightarrow> nat acc \<Rightarrow> nat acc" where
  "size_files fs root [] st = st"
| "size_files fs root (file # files) st = size_files fs root files (size_step fs root file st)"

fun size_walk :: "filesystem \<Rightarrow> (path \<times> string list \<times> string list) list \<Rightarrow> nat acc \<Rightarrow> nat acc" where
  "size_walk fs [] st = st"
| "size_walk fs ((root, dirs, files) # rest) st = size_walk fs rest (size_files fs root files st)"

definition find_duplicates_by_size :: "filesystem \<Rightarrow> path \<Rightarrow> nat acc" where
  "find_duplicates_by_size fs directory =
     (let st = size_walk fs (os_walk directory (scandir_tree fs directory))
                 \<lparr>groups = [], trace = []\<rparr>
      in st\<lparr>groups := drop_unique (groups st)\<rparr>)"

subsection \<open>\<^verbatim>\<open>hash_file\<close>\<close>

text \<open>
  The loop \<^verbatim>\<open>while buf: hasher.update(buf); buf = f.read(block_size)\<close>. The
  offset \<open>pos\<close> is where the file object stands after \<open>buf\<close> was read.
\<close>

function read_loop ::
  "nat \<Rightarrow> file_obj \<Rightarrow> int \<Rightarrow> nat \<Rightarrow> byte list \<Rightarrow> byte list list \<Rightarrow>
     read_exception + byte list list" where
  "read_loop mem f block_size pos buf hasher =
     (if buf \<noteq> [] then
        (case f_read mem f pos block_size of
           Inl e \<Rightarrow> Inl e
         | Inr buf' \<Rightarrow> read_loop mem f block_size (pos + length buf') buf' (hasher @ [buf]))
      else Inr hasher)"
  by pat_completeness auto
termination
proof (relation "measure (\<lambda>(mem, f, block_size, pos, buf, hasher).
          (length (content f) - pos) + (if buf = [] then 0 else 1))", goal_cases)
  case 1
  show ?case by simp
next
  case (2 mem f block_size pos buf hasher buf')
  from 2(2) have len: "length buf' \<le> length (content f) - pos"
    by (auto simp: f_read_def Let_def split: option.splits if_splits)
  show ?case
  proof (cases "buf' = []")
    case True
    then show ?thesis using 2(1) by simp
  next
    case False
    then obtain b bs where "buf' = b # bs" by (cases buf') auto
    with len show ?thesis using 2(1) by simp
  qed
qed

declare read_loop.simps [simp del]

text \<open>
  The body of the \<^verbatim>\<open>with\<close> statement, lines 45 to 48: the first read and the
  loop, starting from the fresh hasher. It gives the blocks fed to the hasher.
\<close>

definition read_blocks :: "nat \<Rightarrow> file_obj \<Rightarrow> int \<Rightarrow> read_exception + byte list list" where
  "read_blocks mem f block_size =
     (case f_read mem f 0 block_size of
        Inl e \<Rightarrow> Inl e
      | Inr buf \<Rightarrow> read_loop mem f block_size (length buf) buf [])"

text \<open>
  \<^verbatim>\<open>hash_file\<close> catches \<^verbatim>\<open>OSError\<close> only. Another exception of \<^verbatim>\<open>read\<close> leaves
  the function: the result is then \<open>Inl\<close> of that exception, and otherwise
  \<open>Inr\<close> of the value returned together with the events.
\<close>

definition hash_file ::
  "(byte list \<Rightarrow> 128 word) \<Rightarrow> filesystem \<Rightarrow> path \<Rightarrow> int \<Rightarrow>
     read_exception + (string option \<times> event list)" where
  "hash_file md5 fs file_path block_size =
     (let failed = (\<lambda>e. Inr (None, [Open file_path,
                                     Print (''Error reading '' @ file_path @ '': '' @ e)])) in
      case open_rb fs file_path of
        Inl (OSError e) \<Rightarrow> failed e
      | Inr f \<Rightarrow>
          (case read_blocks (buffer_max fs) f block_size of
             Inl (OS (OSError e)) \<Rightarrow> failed e
           | Inl ValueError \<Rightarrow> Inl ValueError
           | Inl OverflowError \<Rightarrow> Inl OverflowError
           | Inl MemoryError \<Rightarrow> Inl MemoryError
           | Inr hasher \<Rightarrow> Inr (Some (hexdigest (md5 (concat hasher))), [Open file_path])))"

subsection \<open>\<^verbatim>\<open>find_duplicates_by_hash\<close>\<close>

text \<open>
  The body of the inner loop, lines 69 to 71. The test \<^verbatim>\<open>if file_hash:\<close> is
  false for \<^verbatim>\<open>None\<close> and for the empty string. \<^verbatim>\<open>hash_file\<close> is called with its
  default block size of 65536 bytes, which \<^verbatim>\<open>read\<close> accepts and for which the
  memory suffices, so the call always returns (lemma \<open>hash_file_default_returns\<close>) and the branch \<open>Inl\<close> is never
  taken.
\<close>

definition hash_step :: "(byte list \<Rightarrow> 128 word) \<Rightarrow> filesystem \<Rightarrow> path \<Rightarrow> string acc \<Rightarrow> string acc" where
  "hash_step md5 fs file_path st =
     (case hash_file md5 fs file_path 65536 of
        Inl e \<Rightarrow> st
      | Inr (file_hash, evs) \<Rightarrow>
          (let st' = st\<lparr>trace := trace st @ evs\<rparr> in
           case file_hash of
             None \<Rightarrow> st'
           | Some h \<Rightarrow>
               if h \<noteq> [] then st'\<lparr>groups := dd_append h file_path (groups st')\<rparr> else st'))"

fun hash_files :: "(byte list \<Rightarrow> 128 word) \<Rightarrow> filesystem \<Rightarrow> path list \<Rightarrow> string acc \<Rightarrow> string acc" where
  "hash_files md5 fs [] st = st"
| "hash_files md5 fs (file_path # file_list) st =
     hash_files md5 fs file_list (hash_step md5 fs file_path st)"

fun hash_values :: "(byte list \<Rightarrow> 128 word) \<Rightarrow> filesystem \<Rightarrow> path list list \<Rightarrow> string acc \<Rightarrow> string acc" where
  "hash_values md5 fs [] st = st"
| "hash_values md5 fs (file_list # rest) st =
     hash_values md5 fs rest (hash_files md5 fs file_list st)"

definition find_duplicates_by_hash ::
  "(byte list \<Rightarrow> 128 word) \<Rightarrow> filesystem \<Rightarrow> ('s \<times> path list) list \<Rightarrow> string acc" where
  "find_duplicates_by_hash md5 fs size_dict =
     (let st = hash_values md5 fs (map snd size_dict) \<lparr>groups = [], trace = []\<rparr>
      in st\<lparr>groups := drop_unique (groups st)\<rparr>)"

subsection \<open>\<^verbatim>\<open>display_duplicates\<close> and the script\<close>

definition display_duplicates :: "(string \<times> path list) list \<Rightarrow> event list" where
  "display_duplicates duplicate_dict =
     concat (map (\<lambda>(file_hash, file_paths).
       Print (CHR 0x0A # ''Duplicate files with hash '' @ file_hash @ '':'') #
       map (\<lambda>file_path. Print (''  '' @ file_path)) file_paths) duplicate_dict)"

text \<open>
  The script under \<^verbatim>\<open>__main__\<close>, after the directory was read from the console.
  The size pass sees the snapshot \<open>fs\<close>, the hash pass \<open>fs'\<close> (the same
  snapshot when the tree does not change in between). The script has no exit
  call: it returns what it printed and opened.
\<close>

definition main :: "(byte list \<Rightarrow> 128 word) \<Rightarrow> filesystem \<Rightarrow> filesystem \<Rightarrow> path \<Rightarrow> event list" where
  "main md5 fs fs' directory_to_scan =
     (let size_duplicates = find_duplicates_by_size fs directory_to_scan in
      if groups size_duplicates = [] then
        trace size_duplicates @ [Print ''No duplicate files found based on size.'']
      else
        (let content_duplicates = find_duplicates_by_hash md5 fs' (groups size_duplicates) in
         if groups content_duplicates = [] then
           trace size_duplicates @ trace content_duplicates @
             [Print ''No duplicate files found based on content.'']
         else
           trace size_duplicates @ trace content_duplicates @
             display_duplicates (groups content_duplicates)))"

section \<open>Notions used to state the properties\<close>

text \<open>The paths the size pass meets, in walk order: each name joined to its directory.\<close>

definition walk_files :: "(path \<times> string list \<times> string list) list \<Rightarrow> path list" where
  "walk_files walk = concat (map (\<lambda>(root, dirs, files). map (path_join root) files) walk)"

definition walk_paths :: "filesystem \<Rightarrow> path \<Rightarrow> path list" where
  "walk_paths fs directory = walk_files (os_walk directory (scandir_tree fs directory))"

text \<open>
  Opening a file and reading it to its end in one go: the whole content, or the
  error met on the way, that of opening the file or that of the faulty byte.
\<close>

definition read_whole :: "filesystem \<Rightarrow> path \<Rightarrow> os_error + byte list" where
  "read_whole fs p =
     (case open_rb fs p of
        Inl e \<Rightarrow> Inl e
      | Inr f \<Rightarrow>
          (case fault f of
             None \<Rightarrow> Inr (content f)
           | Some (k, e) \<Rightarrow> if k < length (content f) then Inl e else Inr (content f)))"


text \<open>
  A read buffer of \<open>n\<close> bytes can be allocated: \<open>n\<close> and the header of the bytes
  object fit the index type, and \<open>n\<close> is at most the default block size or at
  most what the machine grants.
\<close>

definition granted :: "nat \<Rightarrow> int \<Rightarrow> bool" where
  "granted mem n \<longleftrightarrow> n < 2 ^ 63 - 33 \<and> (n \<le> 65536 \<or> n \<le> int mem)"

text \<open>
  A content cut into blocks of \<open>n\<close> bytes, the last one possibly shorter: the
  fixed-size chunks in which a file is to be streamed.
\<close>

function fixed_size_chunks :: "nat \<Rightarrow> 'a list \<Rightarrow> 'a list list" where
  "fixed_size_chunks n xs =
     (if n = 0 \<or> xs = [] then [] else take n xs # fixed_size_chunks n (drop n xs))"
  by pat_completeness auto
termination
  by (relation "measure (\<lambda>(n, xs). length xs)") auto

declare fixed_size_chunks.simps [simp del]

text \<open>What \<^verbatim>\<open>hash_file(p)\<close> returns with the default block size, and the events it leaves.\<close>

definition digest_of :: "(byte list \<Rightarrow> 128 word) \<Rightarrow> filesystem \<Rightarrow> path \<Rightarrow> string option" where
  "digest_of md5 fs p =
     (case hash_file md5 fs p 65536 of Inl e \<Rightarrow> None | Inr (file_hash, evs) \<Rightarrow> file_hash)"

definition events_of :: "(byte list \<Rightarrow> 128 word) \<Rightarrow> filesystem \<Rightarrow> path \<Rightarrow> event list" where
  "events_of md5 fs p =
     (case hash_file md5 fs p 65536 of Inl e \<Rightarrow> [] | Inr (file_hash, evs) \<Rightarrow> evs)"

text \<open>A file object whose fault, if it has one, lies beyond its last byte.\<close>

definition sound_from :: "file_obj \<Rightarrow> bool" where
  "sound_from f = (case fault f of None \<Rightarrow> True | Some (k, e) \<Rightarrow> length (content f) \<le> k)"

text \<open>
  Both passes append one (key, path) pair after the other to their dictionary;
  the pairs of a pass, and the events it leaves, are listed by the next four
  functions.
\<close>

definition dd_extend :: "('k \<times> path list) list \<Rightarrow> ('k \<times> path) list \<Rightarrow> ('k \<times> path list) list" where
  "dd_extend d kvs = foldl (\<lambda>d kv. dd_append (fst kv) (snd kv) d) d kvs"

definition size_entries :: "filesystem \<Rightarrow> path list \<Rightarrow> (nat \<times> path) list" where
  "size_entries fs ps =
     concat (map (\<lambda>p. case getsize fs p of Inr s \<Rightarrow> [(s, p)] | Inl e \<Rightarrow> []) ps)"

definition size_diags :: "filesystem \<Rightarrow> path list \<Rightarrow> event list" where
  "size_diags fs ps =
     concat (map (\<lambda>p. case getsize fs p of Inr s \<Rightarrow> []
       | Inl (OSError e) \<Rightarrow> [Print (''Error accessing '' @ p @ '': '' @ e)]) ps)"

definition hash_entries :: "(byte list \<Rightarrow> 128 word) \<Rightarrow> filesystem \<Rightarrow> path list \<Rightarrow> (string \<times> path) list" where
  "hash_entries md5 fs ps =
     concat (map (\<lambda>p. case digest_of md5 fs p of Some h \<Rightarrow> [(h, p)] | None \<Rightarrow> []) ps)"

definition hash_events :: "(byte list \<Rightarrow> 128 word) \<Rightarrow> filesystem \<Rightarrow> path list \<Rightarrow> event list" where
  "hash_events md5 fs ps = concat (map (events_of md5 fs) ps)"

section \<open>A small tree to run the program on\<close>

text \<open>
  The theorems hold for every digest function. To run the program on concrete
  files a simple stand-in digest is used.
\<close>

definition demo_digest :: "byte list \<Rightarrow> 128 word" where
  "demo_digest bs = foldl (\<lambda>h b. h * 31 + ucast b) 7 bs"

definition hello :: "byte list" where
  "hello = [0x68, 0x65, 0x6c, 0x6c, 0x6f]"

definition world :: "byte list" where
  "world = [0x77, 0x6f, 0x72, 0x6c, 0x64]"

text \<open>
  The directory \<^verbatim>\<open>d\<close> holds \<^verbatim>\<open>a.txt\<close> and \<^verbatim>\<open>b.txt\<close> (both "hello"), \<^verbatim>\<open>c.txt\<close>
  ("world"), a name \<^verbatim>\<open>gone\<close> that cannot be examined, and two sub-directories:
  \<^verbatim>\<open>sub\<close> with \<^verbatim>\<open>e.bin\<close> (7 bytes) and \<^verbatim>\<open>bad.txt\<close> (5 bytes, unreadable from
  offset 3 on), and \<^verbatim>\<open>empty\<close> with nothing in it. The machine can allocate read
  buffers of up to 4 GiB.
\<close>

definition demo_sub :: dir_node where
  "demo_sub = Listing [''e.bin'', ''bad.txt''] []"

definition demo_tree :: dir_node where
  "demo_tree = Listing [''a.txt'', ''b.txt'', ''c.txt'', ''gone'']
                 [(''sub'', demo_sub), (''empty'', Listing [] [])]"

definition demo_fs :: filesystem where
  "demo_fs =
     \<lparr>scandir_tree = (\<lambda>p. if p = ''d'' then demo_tree
                          else if p = ''d/sub'' then demo_sub
                          else if p = ''d/empty'' then Listing [] []
                          else NoListing),
      getsize = (\<lambda>p. if p = ''d/a.txt'' \<or> p = ''d/b.txt'' \<or> p = ''d/c.txt'' \<or> p = ''d/sub/bad.txt''
                       then Inr 5
                     else if p = ''d/sub/e.bin'' then Inr 7
                     else Inl (OSError ''[Errno 2] No such file or directory'')),
      open_rb = (\<lambda>p. if p = ''d/a.txt'' \<or> p = ''d/b.txt''
                       then Inr \<lparr>content = hello, fault = None\<rparr>
                     else if p = ''d/c.txt'' then Inr \<lparr>content = world, fault = None\<rparr>
                     else if p = ''d/sub/bad.txt''
                       then Inr \<lparr>content = hello, fault = Some (3, OSError ''[Errno 5] Input/output error'')\<rparr>
                     else if p = ''d/sub/e.bin''
                       then Inr \<lparr>content = [1, 2, 3, 4, 5, 6, 7], fault = None\<rparr>
                     else Inl (OSError ''[Errno 2] No such file or directory'')),
      buffer_max = 2 ^ 32\<rparr>"

text \<open>The size groups the first pass finds in \<^verbatim>\<open>d\<close>.\<close>

definition demo_sizes :: "(nat \<times> path list) list" where
  "demo_sizes = [(5, [''d/a.txt'', ''d/b.txt'', ''d/c.txt'', ''d/sub/bad.txt''])]"

text \<open>A directory \<^verbatim>\<open>z\<close> that holds exactly two files, both of zero bytes.\<close>

definition empty_pair_fs :: filesystem where
  "empty_pair_fs =
     \<lparr>scandir_tree = (\<lambda>p. if p = ''z'' then Listing [''e1'', ''e2''] [] else NoListing),
      getsize = (\<lambda>p. if p = ''z/e1'' \<or> p = ''z/e2'' then Inr 0
                     else Inl (OSError ''[Errno 2] No such file or directory'')),
      open_rb = (\<lambda>p. if p = ''z/e1'' \<or> p = ''z/e2'' then Inr \<lparr>content = [], fault = None\<rparr>
                     else Inl (OSError ''[Errno 2] No such file or directory'')),
      buffer_max = 2 ^ 32\<rparr>"

text \<open>
  A snapshot that differs from the small tree only outside the directory \<^verbatim>\<open>d\<close>:
  a file \<^verbatim>\<open>other/new.txt\<close> has appeared.
\<close>

definition demo_fs_elsewhere :: filesystem where
  "demo_fs_elsewhere =
     demo_fs\<lparr>getsize := (\<lambda>p. if p = ''other/new.txt'' then Inr 5 else getsize demo_fs p),
             open_rb := (\<lambda>p. if p = ''other/new.txt'' then Inr \<lparr>content = hello, fault = None\<rparr>
                             else open_rb demo_fs p)\<rparr>"

section \<open>Dictionaries of lists\<close>

lemma dd_append_keys:
  "map fst (dd_append k v d) = (if k \<in> fst ` set d then map fst d else map fst d @ [k])"
  by (induction d) (auto simp: rev_image_eqI)

lemma dd_append_distinct: "distinct (map fst d) \<Longrightarrow> distinct (map fst (dd_append k v d))"
  by (simp add: dd_append_keys)

lemma map_of_dd_append:
  "map_of (dd_append k v d) =
     (map_of d)(k \<mapsto> (case map_of d k of None \<Rightarrow> [] | Some vs \<Rightarrow> vs) @ [v])"
  by (induction d) (auto simp: fun_eq_iff)

lemma dd_extend_Nil [simp]: "dd_extend d [] = d"
  by (simp add: dd_extend_def)

lemma dd_extend_Cons [simp]: "dd_extend d (kv # kvs) = dd_extend (dd_append (fst kv) (snd kv) d) kvs"
  by (simp add: dd_extend_def)

lemma dd_extend_append: "dd_extend d (xs @ ys) = dd_extend (dd_extend d xs) ys"
  by (simp add: dd_extend_def)

lemma dd_extend_distinct: "distinct (map fst d) \<Longrightarrow> distinct (map fst (dd_extend d kvs))"
  by (induction kvs arbitrary: d) (auto simp: dd_append_distinct)

lemma map_of_dd_extend:
  "map_of (dd_extend d kvs) k =
     (if k \<in> fst ` set d \<or> k \<in> fst ` set kvs
      then Some ((case map_of d k of None \<Rightarrow> [] | Some vs \<Rightarrow> vs) @
                 map snd (filter (\<lambda>kv. fst kv = k) kvs))
      else None)"
proof (induction kvs arbitrary: d)
  case Nil
  have "k \<in> fst ` set d \<longleftrightarrow> map_of d k \<noteq> None"
    by (simp add: map_of_eq_None_iff)
  then show ?case
    by (cases "map_of d k") auto
next
  case (Cons kv kvs)
  have keys: "\<And>d. k \<in> fst ` set d \<longleftrightarrow> map_of d k \<noteq> None"
    by (simp add: map_of_eq_None_iff)
  show ?case
    unfolding dd_extend_Cons Cons.IH keys
    by (cases "map_of d k") (auto simp: map_of_dd_append)
qed

lemma dd_extend_mem:
  "(k, vs) \<in> set (dd_extend [] kvs) \<longleftrightarrow>
     k \<in> fst ` set kvs \<and> vs = map snd (filter (\<lambda>kv. fst kv = k) kvs)"
proof -
  have "distinct (map fst (dd_extend ([] :: ('a \<times> path list) list) kvs))"
    by (rule dd_extend_distinct) simp
  then have "(k, vs) \<in> set (dd_extend [] kvs) \<longleftrightarrow> map_of (dd_extend [] kvs) k = Some vs"
    by simp
  then show ?thesis
    by (auto simp: map_of_dd_extend)
qed

section \<open>The hexadecimal digest\<close>

lemma hex_digit_inj: "a < 16 \<Longrightarrow> b < 16 \<Longrightarrow> hex_digit a = hex_digit b \<Longrightarrow> a = b"
proof -
  assume a: "a < 16" and b: "b < 16" and e: "hex_digit a = hex_digit b"
  have d: "distinct ''0123456789abcdef''" by simp
  have l: "length ''0123456789abcdef'' = 16" by simp
  from e have "''0123456789abcdef'' ! a = ''0123456789abcdef'' ! b"
    using a b by (simp add: hex_digit_def)
  then show "a = b"
    using d l a b nth_eq_iff_index_eq by metis
qed

lemma length_hex_digits [simp]: "length (hex_digits k n) = k"
  by (induction k arbitrary: n) auto

lemma hex_digits_inj:
  "n < 16 ^ k \<Longrightarrow> m < 16 ^ k \<Longrightarrow> hex_digits k n = hex_digits k m \<Longrightarrow> n = m"
proof (induction k arbitrary: n m)
  case 0
  then show ?case by simp
next
  case (Suc k)
  from Suc.prems(3) have e1: "hex_digits k (n div 16) = hex_digits k (m div 16)"
    and e2: "hex_digit n = hex_digit m" by auto
  have "n div 16 < 16 ^ k" "m div 16 < 16 ^ k"
    using Suc.prems(1,2) by (auto simp: less_mult_imp_div_less mult.commute)
  then have d: "n div 16 = m div 16" using e1 by (rule Suc.IH)
  have "hex_digit (n mod 16) = hex_digit (m mod 16)"
    using e2 by (simp add: hex_digit_def)
  then have r: "n mod 16 = m mod 16"
    by (intro hex_digit_inj) auto
  from d r show ?case
    by (metis div_mult_mod_eq)
qed

lemma length_hexdigest [simp]: "length (hexdigest w) = 32"
  by (simp add: hexdigest_def)

lemma hexdigest_nonempty [simp]: "hexdigest w \<noteq> []"
  using length_hexdigest [of w] by (metis list.size(3) zero_neq_numeral)

lemma hexdigest_eq_iff [simp]: "hexdigest a = hexdigest b \<longleftrightarrow> a = b"
proof
  assume e: "hexdigest a = hexdigest b"
  have "unat a < 2 ^ 128" "unat b < 2 ^ 128"
    using unsigned_less [of a, where 'a = nat] unsigned_less [of b, where 'a = nat] by simp_all
  moreover have "(2::nat) ^ 128 = 16 ^ 32" by simp
  ultimately have "unat a < 16 ^ 32" "unat b < 16 ^ 32" by simp_all
  with e have "unat a = unat b"
    unfolding hexdigest_def by (rule hex_digits_inj[rotated 2])
  then show "a = b" by (simp add: word_unat_eq_iff)
qed simp

section \<open>What the passes compute\<close>

subsection \<open>The size pass\<close>

lemma size_entries_simps [simp]:
  "size_entries fs [] = []"
  "size_entries fs (p # ps) = (case getsize fs p of Inr s \<Rightarrow> [(s, p)] | Inl e \<Rightarrow> []) @ size_entries fs ps"
  "size_entries fs (ps @ qs) = size_entries fs ps @ size_entries fs qs"
  by (simp_all add: size_entries_def)

lemma size_diags_simps [simp]:
  "size_diags fs [] = []"
  "size_diags fs (p # ps) = (case getsize fs p of Inr s \<Rightarrow> []
       | Inl (OSError e) \<Rightarrow> [Print (''Error accessing '' @ p @ '': '' @ e)]) @ size_diags fs ps"
  "size_diags fs (ps @ qs) = size_diags fs ps @ size_diags fs qs"
  by (simp_all add: size_diags_def)

lemma size_files_eq:
  "size_files fs root files st =
     \<lparr>groups = dd_extend (groups st) (size_entries fs (map (path_join root) files)),
      trace = trace st @ size_diags fs (map (path_join root) files)\<rparr>"
proof (induction files arbitrary: st)
  case Nil
  show ?case by simp
next
  case (Cons name names)
  show ?case
    unfolding size_files.simps Cons.IH
    by (simp add: size_step_def Let_def split: sum.splits os_error.splits)
qed

lemma size_walk_eq:
  "size_walk fs walk st =
     \<lparr>groups = dd_extend (groups st) (size_entries fs (walk_files walk)),
      trace = trace st @ size_diags fs (walk_files walk)\<rparr>"
proof (induction walk arbitrary: st)
  case Nil
  show ?case by (simp add: walk_files_def)
next
  case (Cons t walk)
  obtain root dirs files where t: "t = (root, dirs, files)" by (cases t) auto
  show ?case
    unfolding t size_walk.simps Cons.IH
    by (simp add: size_files_eq walk_files_def dd_extend_append)
qed

lemma find_duplicates_by_size_eq:
  "find_duplicates_by_size fs directory =
     \<lparr>groups = drop_unique (dd_extend [] (size_entries fs (walk_paths fs directory))),
      trace = size_diags fs (walk_paths fs directory)\<rparr>"
  by (simp add: find_duplicates_by_size_def size_walk_eq walk_paths_def Let_def)

lemma size_entries_filter:
  "map snd (filter (\<lambda>kv. fst kv = s) (size_entries fs ps)) = filter (\<lambda>p. getsize fs p = Inr s) ps"
  by (induction ps) (auto split: sum.splits)

lemma size_entries_keys:
  "s \<in> fst ` set (size_entries fs ps) \<longleftrightarrow> (\<exists>p \<in> set ps. getsize fs p = Inr s)"
  by (induction ps) (auto split: sum.splits)

lemma size_group_iff:
  "(s, ps) \<in> set (groups (find_duplicates_by_size fs directory)) \<longleftrightarrow>
     ps = filter (\<lambda>p. getsize fs p = Inr s) (walk_paths fs directory) \<and> 1 < length ps"
proof -
  let ?ps = "filter (\<lambda>p. getsize fs p = Inr s) (walk_paths fs directory)"
  have "?ps \<noteq> [] \<Longrightarrow> \<exists>p \<in> set (walk_paths fs directory). getsize fs p = Inr s"
    by (simp add: filter_empty_conv)
  then have ex: "1 < length ?ps \<Longrightarrow> \<exists>p \<in> set (walk_paths fs directory). getsize fs p = Inr s"
    by fastforce
  have "(s, ps) \<in> set (groups (find_duplicates_by_size fs directory)) \<longleftrightarrow>
        (s, ps) \<in> set (dd_extend [] (size_entries fs (walk_paths fs directory))) \<and> 1 < length ps"
    by (simp add: find_duplicates_by_size_eq drop_unique_def)
  also have "\<dots> \<longleftrightarrow> (\<exists>p \<in> set (walk_paths fs directory). getsize fs p = Inr s) \<and> ps = ?ps \<and> 1 < length ps"
    by (simp add: dd_extend_mem size_entries_filter size_entries_keys conj_assoc)
  also have "\<dots> \<longleftrightarrow> ps = ?ps \<and> 1 < length ps"
    using ex by blast
  finally show ?thesis .
qed

subsection \<open>Reading a file in blocks\<close>

lemma f_read_sound:
  "sound_from f \<Longrightarrow> 0 \<le> n \<Longrightarrow> granted mem n \<Longrightarrow>
     f_read mem f pos n = Inr (take (nat n) (drop pos (content f)))"
  by (auto simp: f_read_def granted_def sound_from_def Let_def split: option.splits)

lemma fixed_size_chunks_Nil [simp]: "fixed_size_chunks n [] = []"
  by (simp add: fixed_size_chunks.simps)

lemma fixed_size_chunks_step:
  assumes "0 < n"
  shows "fixed_size_chunks n xs =
     (if take n xs = [] then []
      else take n xs # fixed_size_chunks n (drop (length (take n xs)) xs))"
proof (cases "xs = []")
  case True
  then show ?thesis by simp
next
  case False
  have "drop (length (take n xs)) xs = drop n xs"
    by (cases "n \<le> length xs") (simp_all add: min_def)
  moreover have "take n xs \<noteq> []"
    using False assms by simp
  ultimately show ?thesis
    using False assms by (simp add: fixed_size_chunks.simps [of n xs])
qed

lemma concat_fixed_size_chunks: "0 < n \<Longrightarrow> concat (fixed_size_chunks n xs) = xs"
proof (induction n xs rule: fixed_size_chunks.induct)
  case (1 n xs)
  then show ?case
    by (cases "xs = []") (simp_all add: fixed_size_chunks.simps [of n xs])
qed



lemma read_loop_sound:
  assumes "sound_from f" "0 < block_size" "granted mem block_size"
  shows "read_loop mem f block_size pos buf hasher =
     Inr (hasher @ (if buf = [] then []
                    else buf # fixed_size_chunks (nat block_size) (drop pos (content f))))"
  using assms
proof (induction mem f block_size pos buf hasher rule: read_loop.induct)
  case (1 mem f block_size pos buf hasher)
  show ?case
  proof (cases "buf = []")
    case True
    then show ?thesis
      by (simp add: read_loop.simps)
  next
    case False
    let ?n = "nat block_size"
    let ?buf' = "take ?n (drop pos (content f))"
    have rd: "f_read mem f pos block_size = Inr ?buf'"
      using "1.prems" f_read_sound [of f block_size mem pos] by simp
    have n: "0 < ?n"
      using "1.prems"(2) by simp
    have next_blocks: "fixed_size_chunks ?n (drop pos (content f)) =
        (if ?buf' = [] then []
         else ?buf' # fixed_size_chunks ?n (drop (pos + length ?buf') (content f)))"
      using fixed_size_chunks_step [OF n, of "drop pos (content f)"]
      by (simp add: add.commute)
    have "read_loop mem f block_size (pos + length ?buf') ?buf' (hasher @ [buf]) =
        Inr ((hasher @ [buf]) @
             (if ?buf' = [] then []
              else ?buf' # fixed_size_chunks ?n (drop (pos + length ?buf') (content f))))"
      by (rule "1.IH" [OF False rd "1.prems"])
    then have "read_loop mem f block_size (pos + length ?buf') ?buf' (hasher @ [buf]) =
        Inr (hasher @ buf # fixed_size_chunks ?n (drop pos (content f)))"
      unfolding next_blocks [symmetric] by simp
    then show ?thesis
      using False rd by (simp add: read_loop.simps [of mem f block_size pos buf hasher])
  qed
qed

lemma read_blocks_sound:
  assumes "sound_from f" "0 < block_size" "granted mem block_size"
  shows "read_blocks mem f block_size = Inr (fixed_size_chunks (nat block_size) (content f))"
proof -
  let ?n = "nat block_size"
  let ?buf = "take ?n (content f)"
  have n: "0 < ?n"
    using assms(2) by simp
  have rd: "f_read mem f 0 block_size = Inr ?buf"
    using assms f_read_sound [of f block_size mem 0] by simp
  have "read_loop mem f block_size (length ?buf) ?buf [] =
      Inr ([] @ (if ?buf = [] then []
                 else ?buf # fixed_size_chunks ?n (drop (length ?buf) (content f))))"
    by (rule read_loop_sound [OF assms])
  also have "\<dots> = Inr (fixed_size_chunks ?n (content f))"
    using fixed_size_chunks_step [OF n, of "content f"] by simp
  finally show ?thesis
    using rd by (simp add: read_blocks_def)
qed

lemma read_loop_fault:
  assumes "fault f = Some (k, e)" "k < length (content f)"
    and "0 < block_size" "granted mem block_size"
    and "pos \<le> k" "buf \<noteq> []"
  shows "read_loop mem f block_size pos buf hasher = Inl (OS e)"
  using assms
proof (induction mem f block_size pos buf hasher rule: read_loop.induct)
  case (1 mem f block_size pos buf hasher)
  let ?buf' = "take (nat block_size) (drop pos (content f))"
  have ne: "?buf' \<noteq> []"
    using "1.prems" by auto
  show ?case
  proof (cases "k < pos + length ?buf'")
    case True
    then have "f_read mem f pos block_size = Inl (OS e)"
      using "1.prems" by (auto simp: f_read_def granted_def Let_def)
    then show ?thesis
      using "1.prems"(6) by (simp add: read_loop.simps [of mem f block_size pos buf hasher])
  next
    case False
    then have rd: "f_read mem f pos block_size = Inr ?buf'"
      using "1.prems" by (auto simp: f_read_def granted_def Let_def)
    have "read_loop mem f block_size (pos + length ?buf') ?buf' (hasher @ [buf]) = Inl (OS e)"
      using False ne by (intro "1.IH" [OF "1.prems"(6) rd "1.prems"(1,2,3,4)]) auto
    then show ?thesis
      using "1.prems"(6) rd by (simp add: read_loop.simps [of mem f block_size pos buf hasher])
  qed
qed

lemma read_blocks_fault:
  assumes "fault f = Some (k, e)" "k < length (content f)"
    and "0 < block_size" "granted mem block_size"
  shows "read_blocks mem f block_size = Inl (OS e)"
proof -
  let ?buf = "take (nat block_size) (content f)"
  have ne: "?buf \<noteq> []"
    using assms by auto
  show ?thesis
  proof (cases "k < length ?buf")
    case True
    then have "f_read mem f 0 block_size = Inl (OS e)"
      using assms by (auto simp: f_read_def granted_def Let_def)
    then show ?thesis
      by (simp add: read_blocks_def)
  next
    case False
    then have rd: "f_read mem f 0 block_size = Inr ?buf"
      using assms by (auto simp: f_read_def granted_def Let_def)
    have "read_loop mem f block_size (length ?buf) ?buf [] = Inl (OS e)"
      using False ne by (intro read_loop_fault [OF assms]) auto
    then show ?thesis
      using rd by (simp add: read_blocks_def)
  qed
qed

lemma read_blocks_refused:
  "block_size < - (2 ^ 63) \<or> 2 ^ 63 - 33 \<le> block_size \<Longrightarrow>
     read_blocks mem f block_size = Inl OverflowError"
  "- (2 ^ 63) \<le> block_size \<Longrightarrow> block_size < - 1 \<Longrightarrow>
     read_blocks mem f block_size = Inl ValueError"
  "65536 < block_size \<Longrightarrow> int mem < block_size \<Longrightarrow> block_size < 2 ^ 63 - 33 \<Longrightarrow>
     read_blocks mem f block_size = Inl MemoryError"
  by (auto simp: read_blocks_def f_read_def)

lemma read_whole_cases:
  "read_whole fs p =
     (case open_rb fs p of
        Inl e \<Rightarrow> Inl e
      | Inr f \<Rightarrow> (case fault f of
                    None \<Rightarrow> Inr (content f)
                  | Some (k, e) \<Rightarrow> if k < length (content f) then Inl e else Inr (content f)))"
  by (simp add: read_whole_def)

lemma hash_file_eq:
  assumes "0 < block_size" "granted (buffer_max fs) block_size"
  shows "hash_file md5 fs p block_size =
     Inr (case read_whole fs p of
            Inl (OSError e) \<Rightarrow> (None, [Open p, Print (''Error reading '' @ p @ '': '' @ e)])
          | Inr c \<Rightarrow> (Some (hexdigest (md5 c)), [Open p]))"
proof (cases "open_rb fs p")
  case (Inl err)
  then show ?thesis
    by (cases err) (simp add: hash_file_def read_whole_def)
next
  case (Inr f)
  show ?thesis
  proof (cases "sound_from f")
    case True
    have n: "0 < nat block_size"
      using assms(1) by simp
    have "read_blocks (buffer_max fs) f block_size =
        Inr (fixed_size_chunks (nat block_size) (content f))"
      using True assms by (rule read_blocks_sound)
    moreover have "read_whole fs p = Inr (content f)"
      using True Inr by (auto simp: read_whole_cases sound_from_def split: option.splits)
    ultimately show ?thesis
      using Inr by (simp add: hash_file_def concat_fixed_size_chunks [OF n])
  next
    case False
    then obtain k e where flt: "fault f = Some (k, e)" and k: "k < length (content f)"
      by (auto simp: sound_from_def split: option.splits)
    obtain msg where e: "e = OSError msg" by (cases e) auto
    have whole: "read_whole fs p = Inl e"
      using Inr flt k by (simp add: read_whole_cases)
    have "read_blocks (buffer_max fs) f block_size = Inl (OS e)"
      using flt k assms by (rule read_blocks_fault)
    then show ?thesis
      using Inr whole e by (simp add: hash_file_def)
  qed
qed

lemma hash_file_default:
  "hash_file md5 fs p 65536 =
     Inr (case read_whole fs p of
            Inl (OSError e) \<Rightarrow> (None, [Open p, Print (''Error reading '' @ p @ '': '' @ e)])
          | Inr c \<Rightarrow> (Some (hexdigest (md5 c)), [Open p]))"
  by (rule hash_file_eq) (simp_all add: granted_def)

lemma hash_file_default_returns: "\<exists>r. hash_file md5 fs p 65536 = Inr r"
  by (simp add: hash_file_default)

subsection \<open>The hash pass\<close>

lemma digest_of_eq:
  "digest_of md5 fs p =
     (case read_whole fs p of Inl e \<Rightarrow> None | Inr c \<Rightarrow> Some (hexdigest (md5 c)))"
  by (simp add: digest_of_def hash_file_default split: sum.splits os_error.splits)

lemma events_of_eq:
  "events_of md5 fs p =
     (case read_whole fs p of
        Inl (OSError e) \<Rightarrow> [Open p, Print (''Error reading '' @ p @ '': '' @ e)]
      | Inr c \<Rightarrow> [Open p])"
  by (simp add: events_of_def hash_file_default split: sum.splits os_error.splits)

lemma digest_of_nonempty: "digest_of md5 fs p = Some h \<Longrightarrow> h \<noteq> []"
  by (auto simp: digest_of_eq split: sum.splits)

lemma hash_entries_simps [simp]:
  "hash_entries md5 fs [] = []"
  "hash_entries md5 fs (p # ps) =
     (case digest_of md5 fs p of Some h \<Rightarrow> [(h, p)] | None \<Rightarrow> []) @ hash_entries md5 fs ps"
  "hash_entries md5 fs (ps @ qs) = hash_entries md5 fs ps @ hash_entries md5 fs qs"
  by (simp_all add: hash_entries_def)

lemma hash_events_simps [simp]:
  "hash_events md5 fs [] = []"
  "hash_events md5 fs (p # ps) = events_of md5 fs p @ hash_events md5 fs ps"
  "hash_events md5 fs (ps @ qs) = hash_events md5 fs ps @ hash_events md5 fs qs"
  by (simp_all add: hash_events_def)

lemma hash_step_eq:
  "hash_step md5 fs p st =
     \<lparr>groups = dd_extend (groups st) (hash_entries md5 fs [p]),
      trace = trace st @ hash_events md5 fs [p]\<rparr>"
proof -
  obtain r evs where hf: "hash_file md5 fs p 65536 = Inr (r, evs)"
    using hash_file_default_returns [of md5 fs p] by auto
  then have d: "digest_of md5 fs p = r" and ev: "events_of md5 fs p = evs"
    by (simp_all add: digest_of_def events_of_def)
  show ?thesis
  proof (cases r)
    case None
    with hf d ev show ?thesis
      by (cases st) (simp add: hash_step_def)
  next
    case (Some h)
    with d have "h \<noteq> []" by (simp add: digest_of_nonempty)
    with Some hf d ev show ?thesis
      by (cases st) (simp add: hash_step_def)
  qed
qed

lemma hash_files_eq:
  "hash_files md5 fs ps st =
     \<lparr>groups = dd_extend (groups st) (hash_entries md5 fs ps),
      trace = trace st @ hash_events md5 fs ps\<rparr>"
proof (induction ps arbitrary: st)
  case Nil
  show ?case by simp
next
  case (Cons p ps)
  show ?case
    unfolding hash_files.simps Cons.IH
    by (simp add: hash_step_eq split: option.splits)
qed

lemma hash_values_eq:
  "hash_values md5 fs pss st =
     \<lparr>groups = dd_extend (groups st) (hash_entries md5 fs (concat pss)),
      trace = trace st @ hash_events md5 fs (concat pss)\<rparr>"
proof (induction pss arbitrary: st)
  case Nil
  show ?case by simp
next
  case (Cons ps pss)
  show ?case
    unfolding hash_values.simps Cons.IH
    by (simp add: hash_files_eq dd_extend_append)
qed

lemma find_duplicates_by_hash_eq:
  "find_duplicates_by_hash md5 fs size_dict =
     \<lparr>groups = drop_unique (dd_extend [] (hash_entries md5 fs (concat (map snd size_dict)))),
      trace = hash_events md5 fs (concat (map snd size_dict))\<rparr>"
  by (simp add: find_duplicates_by_hash_def hash_values_eq Let_def)

lemma hash_entries_filter:
  "map snd (filter (\<lambda>kv. fst kv = h) (hash_entries md5 fs ps)) =
     filter (\<lambda>p. digest_of md5 fs p = Some h) ps"
  by (induction ps) (auto split: option.splits)

lemma hash_entries_keys:
  "h \<in> fst ` set (hash_entries md5 fs ps) \<longleftrightarrow> (\<exists>p \<in> set ps. digest_of md5 fs p = Some h)"
  by (induction ps) (auto split: option.splits)

lemma hash_group_iff:
  "(h, ps) \<in> set (groups (find_duplicates_by_hash md5 fs size_dict)) \<longleftrightarrow>
     ps = filter (\<lambda>p. digest_of md5 fs p = Some h) (concat (map snd size_dict)) \<and> 1 < length ps"
proof -
  let ?all = "concat (map snd size_dict)"
  let ?ps = "filter (\<lambda>p. digest_of md5 fs p = Some h) ?all"
  have "?ps \<noteq> [] \<Longrightarrow> \<exists>p \<in> set ?all. digest_of md5 fs p = Some h"
    by (simp add: filter_empty_conv)
  then have ex: "1 < length ?ps \<Longrightarrow> \<exists>p \<in> set ?all. digest_of md5 fs p = Some h"
    by fastforce
  have "(h, ps) \<in> set (groups (find_duplicates_by_hash md5 fs size_dict)) \<longleftrightarrow>
        (h, ps) \<in> set (dd_extend [] (hash_entries md5 fs ?all)) \<and> 1 < length ps"
    by (simp add: find_duplicates_by_hash_eq drop_unique_def)
  also have "\<dots> \<longleftrightarrow> (\<exists>p \<in> set ?all. digest_of md5 fs p = Some h) \<and> ps = ?ps \<and> 1 < length ps"
    by (simp add: dd_extend_mem hash_entries_filter hash_entries_keys conj_assoc)
  also have "\<dots> \<longleftrightarrow> ps = ?ps \<and> 1 < length ps"
    using ex by blast
  finally show ?thesis .
qed

lemma events_of_Open:
  "Open p \<in> set (events_of md5 fs q) \<longleftrightarrow> p = q"
proof (cases "read_whole fs q")
  case (Inl err)
  then show ?thesis
    by (cases err) (auto simp: events_of_eq)
next
  case (Inr c)
  then show ?thesis
    by (auto simp: events_of_eq)
qed

lemma hash_events_Open:
  "Open p \<in> set (hash_events md5 fs ps) \<longleftrightarrow> p \<in> set ps"
  by (induction ps) (auto simp: events_of_Open)

section \<open>Running the program on the small tree\<close>

lemma demo_hash_pass:
  "find_duplicates_by_hash demo_digest demo_fs demo_sizes =
     \<lparr>groups = [(hexdigest (demo_digest hello), [''d/a.txt'', ''d/b.txt''])],
      trace = [Open ''d/a.txt'', Open ''d/b.txt'', Open ''d/c.txt'', Open ''d/sub/bad.txt'',
               Print ''Error reading d/sub/bad.txt: [Errno 5] Input/output error'']\<rparr>"
  by (simp add: find_duplicates_by_hash_def demo_sizes_def hash_step_def hash_file_def
      read_blocks_def f_read_def read_loop.simps demo_fs_def drop_unique_def hello_def world_def
      demo_digest_def)

lemma demo_size_pass:
  "find_duplicates_by_size demo_fs ''d'' =
     \<lparr>groups = demo_sizes,
      trace = [Print ''Error accessing d/gone: [Errno 2] No such file or directory'']\<rparr>"
  by (simp add: find_duplicates_by_size_def demo_sizes_def size_step_def path_join_def
      demo_fs_def demo_tree_def demo_sub_def drop_unique_def)

lemma demo_walk_paths:
  "walk_paths demo_fs ''d'' =
     [''d/a.txt'', ''d/b.txt'', ''d/c.txt'', ''d/gone'', ''d/sub/e.bin'', ''d/sub/bad.txt'']"
  by (simp add: walk_paths_def walk_files_def path_join_def demo_fs_def demo_tree_def demo_sub_def)

lemma demo_read_whole:
  "read_whole demo_fs ''d/a.txt'' = Inr hello"
  "read_whole demo_fs ''d/b.txt'' = Inr hello"
  "read_whole demo_fs ''d/c.txt'' = Inr world"
  "read_whole demo_fs ''d/sub/bad.txt'' = Inl (OSError ''[Errno 5] Input/output error'')"
  "read_whole demo_fs ''d/sub/e.bin'' = Inr [1, 2, 3, 4, 5, 6, 7]"
  "read_whole demo_fs ''d/gone'' = Inl (OSError ''[Errno 2] No such file or directory'')"
  by (simp_all add: read_whole_def demo_fs_def hello_def world_def)

lemma demo_digest_differs: "demo_digest hello \<noteq> demo_digest world"
  by (simp add: demo_digest_def hello_def world_def)

lemma demo_digest_other: "demo_digest [1, 2, 3, 4, 5, 6, 7] \<noteq> demo_digest world"
  by (simp add: demo_digest_def world_def)


section \<open>Properties of the duplicate scan\<close>

subsection \<open>Soundness of the digest groups\<close>

text \<open>
  C1. Whatever size groups \<^verbatim>\<open>find_duplicates_by_hash\<close> is given, any two paths of
  one output group were both read to the end and hold the same bytes, whose
  digest keys the group, provided the digest function does not collide on the
  contents of the two files (equal digests are taken as proof of equal content).
\<close>

theorem digest_groups_hold_identical_content:
  assumes "(h, ps) \<in> set (groups (find_duplicates_by_hash md5 fs size_dict))"
    and "p \<in> set ps" and "q \<in> set ps"
    and "inj_on md5 {c. read_whole fs p = Inr c \<or> read_whole fs q = Inr c}"
  shows "\<exists>c. read_whole fs p = Inr c \<and> read_whole fs q = Inr c \<and> h = hexdigest (md5 c)"
proof -
  from assms(1-3) have "digest_of md5 fs p = Some h" "digest_of md5 fs q = Some h"
    by (auto simp: hash_group_iff)
  then obtain c c' where c: "read_whole fs p = Inr c" "h = hexdigest (md5 c)"
    and c': "read_whole fs q = Inr c'" "h = hexdigest (md5 c')"
    by (auto simp: digest_of_eq split: sum.splits)
  from c(2) c'(2) have "hexdigest (md5 c) = hexdigest (md5 c')" by simp
  then have "md5 c = md5 c'" by simp
  with assms(4) c(1) c'(1) have "c = c'"
    by (auto dest: inj_onD)
  with c c' show ?thesis by blast
qed

theorem digest_groups_hold_identical_content_witness:
  "(hexdigest (demo_digest hello), [''d/a.txt'', ''d/b.txt''])
     \<in> set (groups (find_duplicates_by_hash demo_digest demo_fs demo_sizes)) \<and>
   ''d/a.txt'' \<in> set [''d/a.txt'', ''d/b.txt''] \<and> ''d/b.txt'' \<in> set [''d/a.txt'', ''d/b.txt''] \<and>
   inj_on demo_digest {c. read_whole demo_fs ''d/a.txt'' = Inr c \<or> read_whole demo_fs ''d/b.txt'' = Inr c} \<and>
   (\<exists>c. read_whole demo_fs ''d/a.txt'' = Inr c \<and> read_whole demo_fs ''d/b.txt'' = Inr c \<and>
      hexdigest (demo_digest hello) = hexdigest (demo_digest c))"
proof -
  have mem: "(hexdigest (demo_digest hello), [''d/a.txt'', ''d/b.txt''])
     \<in> set (groups (find_duplicates_by_hash demo_digest demo_fs demo_sizes))"
    by (simp add: demo_hash_pass)
  have p: "''d/a.txt'' \<in> set [''d/a.txt'', ''d/b.txt'']"
    and q: "''d/b.txt'' \<in> set [''d/a.txt'', ''d/b.txt'']" by simp_all
  have nocoll: "inj_on demo_digest
      {c. read_whole demo_fs ''d/a.txt'' = Inr c \<or> read_whole demo_fs ''d/b.txt'' = Inr c}"
    by (simp add: demo_read_whole inj_on_def)
  from digest_groups_hold_identical_content [OF mem p q nocoll] mem p q nocoll show ?thesis
    by blast
qed

subsection \<open>Size groups and digest groups\<close>



subsection \<open>Origin and order of the paths in a digest group\<close>

text \<open>
  C10. Every path of an output group of \<^verbatim>\<open>find_duplicates_by_hash\<close> occurs in a list
  of the input mapping, and the group lists its paths in the order in which the
  traversal of the input lists meets them: the group is the traversal filtered
  by the digest.
\<close>

theorem hash_groups_come_from_input_in_order:
  assumes "(h, ps) \<in> set (groups (find_duplicates_by_hash md5 fs size_dict))"
  shows "set ps \<subseteq> (\<Union>(s, file_list) \<in> set size_dict. set file_list) \<and>
         subseq ps (concat (map snd size_dict)) \<and>
         ps = filter (\<lambda>p. digest_of md5 fs p = Some h) (concat (map snd size_dict))"
proof -
  from assms have ps: "ps = filter (\<lambda>p. digest_of md5 fs p = Some h) (concat (map snd size_dict))"
    by (simp add: hash_group_iff)
  then have "subseq ps (concat (map snd size_dict))"
    by simp
  moreover have "set ps \<subseteq> (\<Union>(s, file_list) \<in> set size_dict. set file_list)"
    unfolding ps by auto
  ultimately show ?thesis using ps by simp
qed

theorem hash_groups_come_from_input_in_order_witness:
  "(hexdigest (demo_digest hello), [''d/a.txt'', ''d/b.txt''])
     \<in> set (groups (find_duplicates_by_hash demo_digest demo_fs demo_sizes)) \<and>
   set [''d/a.txt'', ''d/b.txt''] \<subseteq> (\<Union>(s, file_list) \<in> set demo_sizes. set file_list) \<and>
   subseq [''d/a.txt'', ''d/b.txt''] (concat (map snd demo_sizes)) \<and>
   [''d/a.txt'', ''d/b.txt''] =
     filter (\<lambda>p. digest_of demo_digest demo_fs p = Some (hexdigest (demo_digest hello)))
       (concat (map snd demo_sizes))"
proof -
  have mem: "(hexdigest (demo_digest hello), [''d/a.txt'', ''d/b.txt''])
     \<in> set (groups (find_duplicates_by_hash demo_digest demo_fs demo_sizes))"
    by (simp add: demo_hash_pass)
  from hash_groups_come_from_input_in_order [OF mem] mem show ?thesis
    by blast
qed

subsection \<open>Singleton elimination\<close>

lemma size_groups_from_walk:
  "(s, ps) \<in> set (groups (find_duplicates_by_size fs d)) \<Longrightarrow> set ps \<subseteq> set (walk_paths fs d)"
  by (auto simp: size_group_iff)

lemma size_trace: "trace (find_duplicates_by_size fs d) = size_diags fs (walk_paths fs d)"
  by (simp add: find_duplicates_by_size_eq)

lemma hash_trace:
  "trace (find_duplicates_by_hash md5 fs size_dict) = hash_events md5 fs (concat (map snd size_dict))"
  by (simp add: find_duplicates_by_hash_eq)

lemma size_diags_mem:
  "p \<in> set ps \<Longrightarrow> getsize fs p = Inl (OSError msg) \<Longrightarrow>
     Print (''Error accessing '' @ p @ '': '' @ msg) \<in> set (size_diags fs ps)"
  by (induction ps) auto

lemma hash_events_diag:
  "p \<in> set ps \<Longrightarrow> read_whole fs p = Inl (OSError msg) \<Longrightarrow>
     Print (''Error reading '' @ p @ '': '' @ msg) \<in> set (hash_events md5 fs ps)"
  by (induction ps) (auto simp: events_of_eq)

lemma unique_size_in_no_group:
  assumes "getsize fs p = Inr s"
    and "length (filter (\<lambda>r. getsize fs r = Inr s) (walk_paths fs d)) \<le> 1"
    and "(k, ps) \<in> set (groups (find_duplicates_by_size fs d))"
  shows "p \<notin> set ps"
proof
  assume "p \<in> set ps"
  with assms(3) have "getsize fs p = Inr k"
    and ps: "ps = filter (\<lambda>r. getsize fs r = Inr k) (walk_paths fs d)" "1 < length ps"
    by (auto simp: size_group_iff)
  with assms(1) have "k = s" by simp
  with ps assms(2) show False by simp
qed

lemma unique_digest_in_no_group:
  assumes "length (filter (\<lambda>r. digest_of md5 fs r = digest_of md5 fs p) (concat (map snd size_dict))) \<le> 1"
    and "(h, ps) \<in> set (groups (find_duplicates_by_hash md5 fs size_dict))"
  shows "p \<notin> set ps"
proof
  assume "p \<in> set ps"
  with assms(2) have "digest_of md5 fs p = Some h"
    and ps: "ps = filter (\<lambda>r. digest_of md5 fs r = Some h) (concat (map snd size_dict))" "1 < length ps"
    by (auto simp: hash_group_iff)
  with assms(1) show False by simp
qed

lemma unique_content_in_no_group:
  assumes "read_whole fs q = Inr c"
    and "length (filter (\<lambda>r. read_whole fs r = Inr c) (concat (map snd size_dict))) \<le> 1"
    and "\<forall>r \<in> set (concat (map snd size_dict)). \<forall>c'.
           read_whole fs r = Inr c' \<longrightarrow> md5 c' = md5 c \<longrightarrow> c' = c"
    and "(h, ps) \<in> set (groups (find_duplicates_by_hash md5 fs size_dict))"
  shows "q \<notin> set ps"
proof -
  let ?all = "concat (map snd size_dict)"
  have dq: "digest_of md5 fs q = Some (hexdigest (md5 c))"
    using assms(1) by (simp add: digest_of_eq)
  have "filter (\<lambda>r. digest_of md5 fs r = digest_of md5 fs q) ?all =
        filter (\<lambda>r. read_whole fs r = Inr c) ?all"
  proof (rule filter_cong [OF refl])
    fix r assume "r \<in> set ?all"
    with assms(3) show "(digest_of md5 fs r = digest_of md5 fs q) = (read_whole fs r = Inr c)"
      unfolding dq by (cases "read_whole fs r") (auto simp: digest_of_eq)
  qed
  with assms(2) have "length (filter (\<lambda>r. digest_of md5 fs r = digest_of md5 fs q) ?all) \<le> 1"
    by simp
  then show ?thesis
    using assms(4) by (rule unique_digest_in_no_group)
qed

text \<open>
  The paths in the size groups are paths of the walk, each as often as the walk
  lists it at most.
\<close>

lemma mset_dd_append:
  "mset (concat (map snd (dd_append k v d))) = mset (concat (map snd d)) + {#v#}"
  by (induction d) auto

lemma mset_dd_extend:
  "mset (concat (map snd (dd_extend d kvs))) = mset (concat (map snd d)) + mset (map snd kvs)"
  by (induction kvs arbitrary: d) (auto simp: mset_dd_append)

lemma mset_drop_unique:
  "mset (concat (map snd (drop_unique d))) \<subseteq># mset (concat (map snd d))"
  unfolding drop_unique_def
proof (induction d)
  case Nil
  show ?case by simp
next
  case (Cons kv d)
  then show ?case
    by (cases kv) (auto intro: subset_mset.add_mono subset_mset.order_trans [OF _ mset_subset_eq_add_right])
qed

lemma map_snd_size_entries:
  "map snd (size_entries fs ps) =
     filter (\<lambda>p. case getsize fs p of Inl e \<Rightarrow> False | Inr s \<Rightarrow> True) ps"
  by (induction ps) (auto split: sum.splits)

lemma mset_size_entries:
  "mset (map snd (size_entries fs ps)) \<subseteq># mset ps"
  unfolding map_snd_size_entries by simp

lemma size_groups_sub_walk:
  "mset (concat (map snd (groups (find_duplicates_by_size fs d)))) \<subseteq># mset (walk_paths fs d)"
proof -
  have "mset (concat (map snd (groups (find_duplicates_by_size fs d))))
          \<subseteq># mset (map snd (size_entries fs (walk_paths fs d)))"
    using mset_drop_unique [of "dd_extend [] (size_entries fs (walk_paths fs d))"]
    by (simp add: find_duplicates_by_size_eq mset_dd_extend)
  also have "\<dots> \<subseteq># mset (walk_paths fs d)"
    by (rule mset_size_entries)
  finally show ?thesis .
qed

lemma filter_length_mono:
  assumes "mset xs \<subseteq># mset ys"
  shows "length (filter P xs) \<le> length (filter P ys)"
proof -
  have "filter_mset P (mset xs) \<subseteq># filter_mset P (mset ys)"
    using assms by (rule multiset_filter_mono)
  then have "size (filter_mset P (mset xs)) \<le> size (filter_mset P (mset ys))"
    by (rule size_mset_mono)
  then show ?thesis
    by (simp flip: mset_filter)
qed

text \<open>
  C3. Every group that \<^verbatim>\<open>find_duplicates_by_size\<close> or \<^verbatim>\<open>find_duplicates_by_hash\<close>
  returns has at least two members. A file whose size no other file met by the
  walk has is in no size group, is never opened by the hash pass that follows,
  and is in no digest group. A file whose content no other file met by the walk
  has is in no digest group of the scan, as long as the digest function does not
  make its content collide with that of another file of the tree (collisions
  count as duplicates).
\<close>

theorem retained_groups_have_two_members:
  "(\<forall>(k, ps) \<in> set (groups (find_duplicates_by_size fs d)). 2 \<le> length ps) \<and>
   (\<forall>(h, ps) \<in> set (groups (find_duplicates_by_hash md5 fs' size_dict)). 2 \<le> length ps) \<and>
   (getsize fs p = Inr s \<and>
    length (filter (\<lambda>r. getsize fs r = Inr s) (walk_paths fs d)) \<le> 1 \<longrightarrow>
      (\<forall>(k, ps) \<in> set (groups (find_duplicates_by_size fs d)). p \<notin> set ps) \<and>
      Open p \<notin> set (trace (find_duplicates_by_hash md5 fs'
                           (groups (find_duplicates_by_size fs d)))) \<and>
      (\<forall>(h, ps) \<in> set (groups (find_duplicates_by_hash md5 fs'
                           (groups (find_duplicates_by_size fs d)))). p \<notin> set ps)) \<and>
   (read_whole fs' q = Inr c \<and>
    length (filter (\<lambda>r. read_whole fs' r = Inr c) (walk_paths fs d)) \<le> 1 \<and>
    (\<forall>r \<in> set (walk_paths fs d). \<forall>c'.
       read_whole fs' r = Inr c' \<longrightarrow> md5 c' = md5 c \<longrightarrow> c' = c) \<longrightarrow>
      (\<forall>(h, ps) \<in> set (groups (find_duplicates_by_hash md5 fs'
                           (groups (find_duplicates_by_size fs d)))). q \<notin> set ps))"
proof (intro conjI impI)
  show "\<forall>(k, ps) \<in> set (groups (find_duplicates_by_size fs d)). 2 \<le> length ps"
    by (auto simp: size_group_iff)
  show "\<forall>(h, ps) \<in> set (groups (find_duplicates_by_hash md5 fs' size_dict)). 2 \<le> length ps"
    by (auto simp: hash_group_iff)
next
  assume u: "getsize fs p = Inr s \<and>
    length (filter (\<lambda>r. getsize fs r = Inr s) (walk_paths fs d)) \<le> 1"
  let ?sizes = "groups (find_duplicates_by_size fs d)"
  show no_size: "\<forall>(k, ps) \<in> set ?sizes. p \<notin> set ps"
    using u unique_size_in_no_group [of fs p s d] by blast
  then have absent: "p \<notin> set (concat (map snd ?sizes))"
    by fastforce
  then show "Open p \<notin> set (trace (find_duplicates_by_hash md5 fs' ?sizes))"
    by (simp add: hash_trace hash_events_Open)
  show "\<forall>(h, ps) \<in> set (groups (find_duplicates_by_hash md5 fs' ?sizes)). p \<notin> set ps"
    using absent by (auto simp: hash_group_iff)
next
  assume u: "read_whole fs' q = Inr c \<and>
    length (filter (\<lambda>r. read_whole fs' r = Inr c) (walk_paths fs d)) \<le> 1 \<and>
    (\<forall>r \<in> set (walk_paths fs d). \<forall>c'.
       read_whole fs' r = Inr c' \<longrightarrow> md5 c' = md5 c \<longrightarrow> c' = c)"
  let ?sizes = "groups (find_duplicates_by_size fs d)"
  let ?all = "concat (map snd ?sizes)"
  have sub: "mset ?all \<subseteq># mset (walk_paths fs d)"
    by (rule size_groups_sub_walk)
  then have "length (filter (\<lambda>r. read_whole fs' r = Inr c) ?all)
               \<le> length (filter (\<lambda>r. read_whole fs' r = Inr c) (walk_paths fs d))"
    by (rule filter_length_mono)
  with u have once: "length (filter (\<lambda>r. read_whole fs' r = Inr c) ?all) \<le> 1"
    by simp
  from sub have "set ?all \<subseteq> set (walk_paths fs d)"
    using set_mset_mono by fastforce
  with u have nocoll: "\<forall>r \<in> set ?all. \<forall>c'.
       read_whole fs' r = Inr c' \<longrightarrow> md5 c' = md5 c \<longrightarrow> c' = c"
    by blast
  from u have whole: "read_whole fs' q = Inr c" by simp
  show "\<forall>(h, ps) \<in> set (groups (find_duplicates_by_hash md5 fs' ?sizes)). q \<notin> set ps"
    using unique_content_in_no_group [OF whole once nocoll] by blast
qed

theorem retained_groups_have_two_members_witness:
  "groups (find_duplicates_by_size demo_fs ''d'') =
     [(5, [''d/a.txt'', ''d/b.txt'', ''d/c.txt'', ''d/sub/bad.txt''])] \<and>
   groups (find_duplicates_by_hash demo_digest demo_fs demo_sizes) =
     [(hexdigest (demo_digest hello), [''d/a.txt'', ''d/b.txt''])] \<and>
   2 \<le> length [''d/a.txt'', ''d/b.txt'', ''d/c.txt'', ''d/sub/bad.txt''] \<and>
   2 \<le> length [''d/a.txt'', ''d/b.txt''] \<and>
   getsize demo_fs ''d/sub/e.bin'' = Inr 7 \<and>
   length (filter (\<lambda>r. getsize demo_fs r = Inr 7) (walk_paths demo_fs ''d'')) \<le> 1 \<and>
   ''d/sub/e.bin'' \<notin> set [''d/a.txt'', ''d/b.txt'', ''d/c.txt'', ''d/sub/bad.txt''] \<and>
   Open ''d/sub/e.bin'' \<notin> set (trace (find_duplicates_by_hash demo_digest demo_fs
                           (groups (find_duplicates_by_size demo_fs ''d'')))) \<and>
   read_whole demo_fs ''d/c.txt'' = Inr world \<and>
   length (filter (\<lambda>r. read_whole demo_fs r = Inr world) (walk_paths demo_fs ''d'')) \<le> 1 \<and>
   demo_digest hello \<noteq> demo_digest world \<and>
   ''d/c.txt'' \<notin> set [''d/a.txt'', ''d/b.txt'']"
proof -
  have size_hyp: "getsize demo_fs ''d/sub/e.bin'' = Inr 7 \<and>
      length (filter (\<lambda>r. getsize demo_fs r = Inr 7) (walk_paths demo_fs ''d'')) \<le> 1"
    by (simp add: demo_walk_paths) (simp add: demo_fs_def)
  have differs: "hello \<noteq> world" "[1, 2, 3, 4, 5, 6, 7] \<noteq> world"
    by (simp_all add: hello_def world_def)
  have content_hyp: "read_whole demo_fs ''d/c.txt'' = Inr world \<and>
      length (filter (\<lambda>r. read_whole demo_fs r = Inr world) (walk_paths demo_fs ''d'')) \<le> 1 \<and>
      (\<forall>r \<in> set (walk_paths demo_fs ''d''). \<forall>c'.
         read_whole demo_fs r = Inr c' \<longrightarrow> demo_digest c' = demo_digest world \<longrightarrow> c' = world)"
    using differs demo_digest_differs demo_digest_other
    by (simp add: demo_walk_paths demo_read_whole)
  have sizes: "(5, [''d/a.txt'', ''d/b.txt'', ''d/c.txt'', ''d/sub/bad.txt''])
      \<in> set (groups (find_duplicates_by_size demo_fs ''d''))"
    and run1: "groups (find_duplicates_by_size demo_fs ''d'') =
      [(5, [''d/a.txt'', ''d/b.txt'', ''d/c.txt'', ''d/sub/bad.txt''])]"
    by (simp_all add: demo_size_pass demo_sizes_def)
  have piped: "(hexdigest (demo_digest hello), [''d/a.txt'', ''d/b.txt''])
      \<in> set (groups (find_duplicates_by_hash demo_digest demo_fs
               (groups (find_duplicates_by_size demo_fs ''d''))))"
    by (simp add: demo_size_pass demo_hash_pass)
  have hashes: "(hexdigest (demo_digest hello), [''d/a.txt'', ''d/b.txt''])
      \<in> set (groups (find_duplicates_by_hash demo_digest demo_fs demo_sizes))"
    and run2: "groups (find_duplicates_by_hash demo_digest demo_fs demo_sizes) =
      [(hexdigest (demo_digest hello), [''d/a.txt'', ''d/b.txt''])]"
    by (simp_all add: demo_hash_pass)
  note inst = retained_groups_have_two_members [of demo_fs "''d''" demo_digest demo_fs
      demo_sizes "''d/sub/e.bin''" 7 "''d/c.txt''" world]
  from inst sizes have two_sizes: "2 \<le> length [''d/a.txt'', ''d/b.txt'', ''d/c.txt'', ''d/sub/bad.txt'']"
    by blast
  from inst hashes have two_hashes: "2 \<le> length [''d/a.txt'', ''d/b.txt'']"
    by blast
  from inst size_hyp sizes
  have no_size: "''d/sub/e.bin'' \<notin> set [''d/a.txt'', ''d/b.txt'', ''d/c.txt'', ''d/sub/bad.txt'']"
    by blast
  from inst size_hyp
  have not_opened: "Open ''d/sub/e.bin'' \<notin> set (trace (find_duplicates_by_hash demo_digest demo_fs
                           (groups (find_duplicates_by_size demo_fs ''d''))))"
    by blast
  from inst content_hyp piped have no_hash: "''d/c.txt'' \<notin> set [''d/a.txt'', ''d/b.txt'']"
    by blast
  from run1 run2 two_sizes two_hashes size_hyp no_size not_opened content_hyp
    demo_digest_differs no_hash
  show ?thesis by blast
qed

subsection \<open>Failures on single files\<close>

text \<open>
  C4. When the size of a file met by the walk cannot be obtained,
  \<^verbatim>\<open>find_duplicates_by_size\<close> prints the diagnostic for that file, puts the file in
  no size group, and goes on: every other file, before or after it in the walk,
  whose size is shared is still reported in the group of its size.
\<close>

theorem stat_failure_skips_only_that_file:
  assumes "p \<in> set (walk_paths fs d)" and "getsize fs p = Inl (OSError msg)"
  shows "Print (''Error accessing '' @ p @ '': '' @ msg) \<in> set (trace (find_duplicates_by_size fs d)) \<and>
    (\<forall>(k, ps) \<in> set (groups (find_duplicates_by_size fs d)). p \<notin> set ps) \<and>
    (\<forall>q \<in> set (walk_paths fs d). \<forall>s.
       getsize fs q = Inr s \<longrightarrow>
       1 < length (filter (\<lambda>r. getsize fs r = Inr s) (walk_paths fs d)) \<longrightarrow>
       (\<exists>ps. (s, ps) \<in> set (groups (find_duplicates_by_size fs d)) \<and> q \<in> set ps))"
proof (intro conjI)
  show "Print (''Error accessing '' @ p @ '': '' @ msg) \<in> set (trace (find_duplicates_by_size fs d))"
    unfolding size_trace using assms by (rule size_diags_mem)
  show "\<forall>(k, ps) \<in> set (groups (find_duplicates_by_size fs d)). p \<notin> set ps"
    using assms(2) by (auto simp: size_group_iff)
  show "\<forall>q \<in> set (walk_paths fs d). \<forall>s.
       getsize fs q = Inr s \<longrightarrow>
       1 < length (filter (\<lambda>r. getsize fs r = Inr s) (walk_paths fs d)) \<longrightarrow>
       (\<exists>ps. (s, ps) \<in> set (groups (find_duplicates_by_size fs d)) \<and> q \<in> set ps)"
    by (auto simp: size_group_iff)
qed

theorem stat_failure_skips_only_that_file_witness:
  "''d/gone'' \<in> set (walk_paths demo_fs ''d'') \<and>
   getsize demo_fs ''d/gone'' = Inl (OSError ''[Errno 2] No such file or directory'') \<and>
   Print (''Error accessing '' @ ''d/gone'' @ '': '' @ ''[Errno 2] No such file or directory'')
     \<in> set (trace (find_duplicates_by_size demo_fs ''d'')) \<and>
   (5, [''d/a.txt'', ''d/b.txt'', ''d/c.txt'', ''d/sub/bad.txt''])
     \<in> set (groups (find_duplicates_by_size demo_fs ''d'')) \<and>
   ''d/gone'' \<notin> set [''d/a.txt'', ''d/b.txt'', ''d/c.txt'', ''d/sub/bad.txt''] \<and>
   ''d/sub/bad.txt'' \<in> set (walk_paths demo_fs ''d'') \<and>
   getsize demo_fs ''d/sub/bad.txt'' = Inr 5 \<and>
   1 < length (filter (\<lambda>r. getsize demo_fs r = Inr 5) (walk_paths demo_fs ''d'')) \<and>
   (\<exists>ps. (5, ps) \<in> set (groups (find_duplicates_by_size demo_fs ''d'')) \<and>
         ''d/sub/bad.txt'' \<in> set ps)"
proof -
  have listed: "''d/gone'' \<in> set (walk_paths demo_fs ''d'')"
    and after: "''d/sub/bad.txt'' \<in> set (walk_paths demo_fs ''d'')"
    by (simp_all add: demo_walk_paths)
  have fails: "getsize demo_fs ''d/gone'' = Inl (OSError ''[Errno 2] No such file or directory'')"
    by (simp add: demo_fs_def)
  have size: "getsize demo_fs ''d/sub/bad.txt'' = Inr 5"
    by (simp add: demo_fs_def)
  have shared: "1 < length (filter (\<lambda>r. getsize demo_fs r = Inr 5) (walk_paths demo_fs ''d''))"
    by (simp add: demo_walk_paths) (simp add: demo_fs_def)
  have run: "(5, [''d/a.txt'', ''d/b.txt'', ''d/c.txt'', ''d/sub/bad.txt''])
     \<in> set (groups (find_duplicates_by_size demo_fs ''d''))"
    by (simp add: demo_size_pass demo_sizes_def)
  note inst = stat_failure_skips_only_that_file [OF listed fails]
  from inst have printed:
    "Print (''Error accessing '' @ ''d/gone'' @ '': '' @ ''[Errno 2] No such file or directory'')
       \<in> set (trace (find_duplicates_by_size demo_fs ''d''))"
    by blast
  from inst run have absent: "''d/gone'' \<notin> set [''d/a.txt'', ''d/b.txt'', ''d/c.txt'', ''d/sub/bad.txt'']"
    by blast
  from inst after size shared
  have kept: "\<exists>ps. (5, ps) \<in> set (groups (find_duplicates_by_size demo_fs ''d'')) \<and>
         ''d/sub/bad.txt'' \<in> set ps"
    by blast
  from listed fails printed run absent after size shared kept show ?thesis
    by blast
qed

text \<open>
  C5. When a file of the input cannot be opened, or a byte at some offset of it
  cannot be read, \<^verbatim>\<open>hash_file\<close> returns \<^verbatim>\<open>None\<close> after printing the diagnostic,
  \<^verbatim>\<open>find_duplicates_by_hash\<close> puts the file in no group, and goes on: every
  readable file whose digest is shared is still reported in the group of its
  digest.
\<close>

theorem read_failure_skips_only_that_file:
  assumes "p \<in> set (concat (map snd size_dict))"
    and "open_rb fs p = Inl (OSError msg) \<or>
         (\<exists>f k. open_rb fs p = Inr f \<and> fault f = Some (k, OSError msg) \<and> k < length (content f))"
  shows "hash_file md5 fs p 65536 =
           Inr (None, [Open p, Print (''Error reading '' @ p @ '': '' @ msg)]) \<and>
    Print (''Error reading '' @ p @ '': '' @ msg) \<in> set (trace (find_duplicates_by_hash md5 fs size_dict)) \<and>
    (\<forall>(h, ps) \<in> set (groups (find_duplicates_by_hash md5 fs size_dict)). p \<notin> set ps) \<and>
    (\<forall>q \<in> set (concat (map snd size_dict)). \<forall>c.
       read_whole fs q = Inr c \<longrightarrow>
       1 < length (filter (\<lambda>r. digest_of md5 fs r = Some (hexdigest (md5 c)))
                    (concat (map snd size_dict))) \<longrightarrow>
       (\<exists>ps. (hexdigest (md5 c), ps) \<in> set (groups (find_duplicates_by_hash md5 fs size_dict)) \<and>
             q \<in> set ps))"
proof -
  from assms(2) have whole: "read_whole fs p = Inl (OSError msg)"
    by (auto simp: read_whole_cases)
  then have none: "digest_of md5 fs p = None"
    by (simp add: digest_of_eq)
  show ?thesis
  proof (intro conjI)
    show "hash_file md5 fs p 65536 =
            Inr (None, [Open p, Print (''Error reading '' @ p @ '': '' @ msg)])"
      using whole by (simp add: hash_file_default)
    show "Print (''Error reading '' @ p @ '': '' @ msg)
            \<in> set (trace (find_duplicates_by_hash md5 fs size_dict))"
      unfolding hash_trace using assms(1) whole by (rule hash_events_diag)
    show "\<forall>(h, ps) \<in> set (groups (find_duplicates_by_hash md5 fs size_dict)). p \<notin> set ps"
      using none by (auto simp: hash_group_iff)
    show "\<forall>q \<in> set (concat (map snd size_dict)). \<forall>c.
       read_whole fs q = Inr c \<longrightarrow>
       1 < length (filter (\<lambda>r. digest_of md5 fs r = Some (hexdigest (md5 c)))
                    (concat (map snd size_dict))) \<longrightarrow>
       (\<exists>ps. (hexdigest (md5 c), ps) \<in> set (groups (find_duplicates_by_hash md5 fs size_dict)) \<and>
             q \<in> set ps)"
      by (auto simp: hash_group_iff digest_of_eq)
  qed
qed

theorem read_failure_skips_only_that_file_witness:
  "''d/sub/bad.txt'' \<in> set (concat (map snd demo_sizes)) \<and>
   open_rb demo_fs ''d/sub/bad.txt'' =
     Inr \<lparr>content = hello, fault = Some (3, OSError ''[Errno 5] Input/output error'')\<rparr> \<and>
   3 < length hello \<and>
   hash_file demo_digest demo_fs ''d/sub/bad.txt'' 65536 =
     Inr (None, [Open ''d/sub/bad.txt'',
                 Print (''Error reading '' @ ''d/sub/bad.txt'' @ '': '' @ ''[Errno 5] Input/output error'')]) \<and>
   Print (''Error reading '' @ ''d/sub/bad.txt'' @ '': '' @ ''[Errno 5] Input/output error'')
     \<in> set (trace (find_duplicates_by_hash demo_digest demo_fs demo_sizes)) \<and>
   (hexdigest (demo_digest hello), [''d/a.txt'', ''d/b.txt''])
     \<in> set (groups (find_duplicates_by_hash demo_digest demo_fs demo_sizes)) \<and>
   ''d/sub/bad.txt'' \<notin> set [''d/a.txt'', ''d/b.txt''] \<and>
   ''d/a.txt'' \<in> set (concat (map snd demo_sizes)) \<and>
   read_whole demo_fs ''d/a.txt'' = Inr hello \<and>
   1 < length (filter (\<lambda>r. digest_of demo_digest demo_fs r = Some (hexdigest (demo_digest hello)))
                (concat (map snd demo_sizes))) \<and>
   (\<exists>ps. (hexdigest (demo_digest hello), ps)
            \<in> set (groups (find_duplicates_by_hash demo_digest demo_fs demo_sizes)) \<and>
         ''d/a.txt'' \<in> set ps)"
proof -
  have listed: "''d/sub/bad.txt'' \<in> set (concat (map snd demo_sizes))"
    and other: "''d/a.txt'' \<in> set (concat (map snd demo_sizes))"
    by (simp_all add: demo_sizes_def)
  have opened: "open_rb demo_fs ''d/sub/bad.txt'' =
      Inr \<lparr>content = hello, fault = Some (3, OSError ''[Errno 5] Input/output error'')\<rparr>"
    by (simp add: demo_fs_def)
  have inside: "3 < length hello"
    by (simp add: hello_def)
  from opened inside
  have fails: "open_rb demo_fs ''d/sub/bad.txt'' = Inl (OSError ''[Errno 5] Input/output error'') \<or>
    (\<exists>f k. open_rb demo_fs ''d/sub/bad.txt'' = Inr f \<and>
       fault f = Some (k, OSError ''[Errno 5] Input/output error'') \<and> k < length (content f))"
    by simp
  have run: "(hexdigest (demo_digest hello), [''d/a.txt'', ''d/b.txt''])
     \<in> set (groups (find_duplicates_by_hash demo_digest demo_fs demo_sizes))"
    by (simp add: demo_hash_pass)
  have whole: "read_whole demo_fs ''d/a.txt'' = Inr hello"
    by (simp add: demo_read_whole)
  have shared: "1 < length (filter (\<lambda>r. digest_of demo_digest demo_fs r =
                    Some (hexdigest (demo_digest hello))) (concat (map snd demo_sizes)))"
    using demo_digest_differs
    by (simp add: demo_sizes_def digest_of_eq demo_read_whole)
  note inst = read_failure_skips_only_that_file [OF listed fails, of demo_digest]
  from inst have result: "hash_file demo_digest demo_fs ''d/sub/bad.txt'' 65536 =
     Inr (None, [Open ''d/sub/bad.txt'',
                 Print (''Error reading '' @ ''d/sub/bad.txt'' @ '': '' @ ''[Errno 5] Input/output error'')])"
    and printed: "Print (''Error reading '' @ ''d/sub/bad.txt'' @ '': '' @ ''[Errno 5] Input/output error'')
      \<in> set (trace (find_duplicates_by_hash demo_digest demo_fs demo_sizes))"
    by blast+
  from inst run have absent: "''d/sub/bad.txt'' \<notin> set [''d/a.txt'', ''d/b.txt'']"
    by blast
  from inst other whole shared
  have kept: "\<exists>ps. (hexdigest (demo_digest hello), ps)
            \<in> set (groups (find_duplicates_by_hash demo_digest demo_fs demo_sizes)) \<and>
         ''d/a.txt'' \<in> set ps"
    by blast
  from listed opened inside result printed run absent other whole shared kept show ?thesis
    by blast
qed

subsection \<open>A root that cannot be scanned\<close>

text \<open>
  C6. \<^verbatim>\<open>os.walk\<close> is called without an error handler, so a root that is missing,
  not permitted or not a directory yields nothing: \<^verbatim>\<open>find_duplicates_by_size\<close>
  returns the empty mapping and prints no diagnostic, exactly as it does for an
  empty directory, and the script prints the one line it prints whenever no two
  files share a size. Nothing tells the caller that the scan did not start.
\<close>

theorem unscannable_root_looks_like_empty_directory:
  assumes "scandir_tree fs d = NoListing \<or> scandir_tree fs d = Listing [] []"
  shows "find_duplicates_by_size fs d = \<lparr>groups = [], trace = []\<rparr> \<and>
         main md5 fs fs' d = [Print ''No duplicate files found based on size.'']"
  using assms
  by (auto simp: find_duplicates_by_size_def main_def drop_unique_def)

theorem unscannable_root_looks_like_empty_directory_witness:
  "scandir_tree demo_fs ''missing'' = NoListing \<and>
   find_duplicates_by_size demo_fs ''missing'' = \<lparr>groups = [], trace = []\<rparr> \<and>
   main demo_digest demo_fs demo_fs ''missing'' = [Print ''No duplicate files found based on size.'']"
proof -
  have missing: "scandir_tree demo_fs ''missing'' = NoListing"
    by (simp add: demo_fs_def)
  then have root: "scandir_tree demo_fs ''missing'' = NoListing \<or>
              scandir_tree demo_fs ''missing'' = Listing [] []"
    by simp
  from unscannable_root_looks_like_empty_directory [OF root, of demo_digest demo_fs] missing
  show ?thesis by blast
qed

text \<open>
  The root \<^verbatim>\<open>missing\<close> does not exist and \<^verbatim>\<open>d/empty\<close> is an empty directory; the
  size pass and the script behave the same on both.
\<close>

theorem invalid_root_reported_as_failure_counterexample:
  "scandir_tree demo_fs ''missing'' = NoListing \<and>
   scandir_tree demo_fs ''d/empty'' = Listing [] [] \<and>
   find_duplicates_by_size demo_fs ''missing'' = \<lparr>groups = [], trace = []\<rparr> \<and>
   find_duplicates_by_size demo_fs ''d/empty'' = \<lparr>groups = [], trace = []\<rparr> \<and>
   main demo_digest demo_fs demo_fs ''missing'' = [Print ''No duplicate files found based on size.''] \<and>
   main demo_digest demo_fs demo_fs ''d/empty'' = [Print ''No duplicate files found based on size.'']"
  by (simp add: find_duplicates_by_size_def main_def drop_unique_def demo_fs_def)

subsection \<open>Hashing in blocks\<close>

text \<open>
  Block sizes that are not sizes of a block. With zero the first read returns no
  bytes, the loop is not entered, and the result is the digest of the empty
  content whatever the file holds. A size below -1, one that does not fit the
  index type, and one for which the machine has no buffer are refused by
  \<^verbatim>\<open>read\<close> with an exception that \<^verbatim>\<open>hash_file\<close> does not catch.
\<close>

lemma hash_file_block_size_zero:
  assumes "open_rb fs p = Inr f"
  shows "hash_file md5 fs p 0 = Inr (Some (hexdigest (md5 [])), [Open p])"
  using assms
  by (auto simp: hash_file_def read_blocks_def f_read_def read_loop.simps split: option.splits)

lemma hash_file_refused_size:
  assumes "open_rb fs p = Inr f"
  shows "block_size < - (2 ^ 63) \<or> 2 ^ 63 - 33 \<le> block_size \<Longrightarrow>
           hash_file md5 fs p block_size = Inl OverflowError"
    and "- (2 ^ 63) \<le> block_size \<Longrightarrow> block_size < - 1 \<Longrightarrow>
           hash_file md5 fs p block_size = Inl ValueError"
    and "65536 < block_size \<Longrightarrow> int (buffer_max fs) < block_size \<Longrightarrow>
         block_size < 2 ^ 63 - 33 \<Longrightarrow>
           hash_file md5 fs p block_size = Inl MemoryError"
  using assms by (simp_all add: hash_file_def read_blocks_refused)



subsection \<open>Two empty files\<close>

lemma walk_paths_flat:
  "scandir_tree fs d = Listing names [] \<Longrightarrow> walk_paths fs d = map (path_join d) names"
  by (simp add: walk_paths_def walk_files_def)

text \<open>
  C8. In a directory that holds exactly two files, both measured with zero bytes
  and both read as empty, the size pass returns the one group of size 0 with the
  two paths; \<^verbatim>\<open>hash_file\<close> gives each the digest of the empty content, which is
  a non-empty string, so the step of the hash pass records the file; the hash
  pass returns one group with the two paths, and the script prints that group.
\<close>

theorem two_empty_files_are_duplicates:
  assumes "scandir_tree fs d = Listing [n1, n2] []"
    and "getsize fs (path_join d n1) = Inr 0" and "getsize fs (path_join d n2) = Inr 0"
    and "read_whole fs' (path_join d n1) = Inr []" and "read_whole fs' (path_join d n2) = Inr []"
  shows "groups (find_duplicates_by_size fs d) = [(0, [path_join d n1, path_join d n2])] \<and>
    hash_file md5 fs' (path_join d n1) 65536 =
      Inr (Some (hexdigest (md5 [])), [Open (path_join d n1)]) \<and>
    hexdigest (md5 []) \<noteq> [] \<and>
    groups (hash_step md5 fs' (path_join d n1) st) =
      dd_append (hexdigest (md5 [])) (path_join d n1) (groups st) \<and>
    groups (find_duplicates_by_hash md5 fs' (groups (find_duplicates_by_size fs d))) =
      [(hexdigest (md5 []), [path_join d n1, path_join d n2])] \<and>
    main md5 fs fs' d =
      [Open (path_join d n1), Open (path_join d n2),
       Print (CHR 0x0A # ''Duplicate files with hash '' @ hexdigest (md5 []) @ '':''),
       Print (''  '' @ path_join d n1), Print (''  '' @ path_join d n2)]"
proof -
  let ?p1 = "path_join d n1" and ?p2 = "path_join d n2"
  have sizes: "find_duplicates_by_size fs d = \<lparr>groups = [(0, [?p1, ?p2])], trace = []\<rparr>"
    using assms(1-3)
    by (simp add: find_duplicates_by_size_eq walk_paths_flat drop_unique_def)
  have h1: "hash_file md5 fs' ?p1 65536 = Inr (Some (hexdigest (md5 [])), [Open ?p1])"
    and h2: "hash_file md5 fs' ?p2 65536 = Inr (Some (hexdigest (md5 [])), [Open ?p2])"
    using assms(4,5) by (simp_all add: hash_file_default)
  have step: "groups (hash_step md5 fs' ?p1 st) = dd_append (hexdigest (md5 [])) ?p1 (groups st)"
    using h1 by (simp add: hash_step_def)
  have hashes: "find_duplicates_by_hash md5 fs' [(0::nat, [?p1, ?p2])] =
      \<lparr>groups = [(hexdigest (md5 []), [?p1, ?p2])], trace = [Open ?p1, Open ?p2]\<rparr>"
    using h1 h2 by (simp add: find_duplicates_by_hash_def hash_step_def drop_unique_def)
  have "main md5 fs fs' d =
      [Open ?p1, Open ?p2,
       Print (CHR 0x0A # ''Duplicate files with hash '' @ hexdigest (md5 []) @ '':''),
       Print (''  '' @ ?p1), Print (''  '' @ ?p2)]"
    by (simp add: main_def sizes hashes display_duplicates_def)
  with sizes hashes h1 step show ?thesis
    by simp
qed

theorem two_empty_files_are_duplicates_witness:
  "scandir_tree empty_pair_fs ''z'' = Listing [''e1'', ''e2''] [] \<and>
   getsize empty_pair_fs ''z/e1'' = Inr 0 \<and>
   getsize empty_pair_fs ''z/e2'' = Inr 0 \<and>
   read_whole empty_pair_fs ''z/e1'' = Inr [] \<and>
   read_whole empty_pair_fs ''z/e2'' = Inr [] \<and>
   groups (find_duplicates_by_size empty_pair_fs ''z'') = [(0, [''z/e1'', ''z/e2''])] \<and>
   hash_file demo_digest empty_pair_fs ''z/e1'' 65536 =
     Inr (Some (hexdigest (demo_digest [])), [Open ''z/e1'']) \<and>
   hexdigest (demo_digest []) \<noteq> [] \<and>
   groups (hash_step demo_digest empty_pair_fs ''z/e1'' \<lparr>groups = [], trace = []\<rparr>) =
     dd_append (hexdigest (demo_digest [])) ''z/e1'' [] \<and>
   groups (find_duplicates_by_hash demo_digest empty_pair_fs
            (groups (find_duplicates_by_size empty_pair_fs ''z''))) =
     [(hexdigest (demo_digest []), [''z/e1'', ''z/e2''])] \<and>
   main demo_digest empty_pair_fs empty_pair_fs ''z'' =
     [Open ''z/e1'', Open ''z/e2'',
      Print (CHR 0x0A # ''Duplicate files with hash '' @ hexdigest (demo_digest []) @ '':''),
      Print (''  '' @ ''z/e1''), Print (''  '' @ ''z/e2'')]"
proof -
  have j: "path_join ''z'' ''e1'' = ''z/e1''" "path_join ''z'' ''e2'' = ''z/e2''"
    by (simp_all add: path_join_def)
  have tree: "scandir_tree empty_pair_fs ''z'' = Listing [''e1'', ''e2''] []"
    by (simp add: empty_pair_fs_def)
  have s1: "getsize empty_pair_fs (path_join ''z'' ''e1'') = Inr 0"
    and s2: "getsize empty_pair_fs (path_join ''z'' ''e2'') = Inr 0"
    by (simp_all add: j empty_pair_fs_def)
  have r1: "read_whole empty_pair_fs (path_join ''z'' ''e1'') = Inr []"
    and r2: "read_whole empty_pair_fs (path_join ''z'' ''e2'') = Inr []"
    by (simp_all add: j read_whole_def empty_pair_fs_def)
  note run = two_empty_files_are_duplicates [OF tree s1 s2 r1 r2,
      of demo_digest "\<lparr>groups = [], trace = []\<rparr>", unfolded j]
  have st: "groups \<lparr>groups = [], trace = []\<rparr> = ([] :: (string \<times> path list) list)"
    by simp
  from run tree s1 [unfolded j] s2 [unfolded j] r1 [unfolded j] r2 [unfolded j]
  show ?thesis unfolding st by blast
qed

subsection \<open>Two runs over an unmodified tree\<close>

lemma size_entries_cong:
  "\<forall>p \<in> set ps. getsize fs2 p = getsize fs1 p \<Longrightarrow> size_entries fs2 ps = size_entries fs1 ps"
  by (induction ps) auto

lemma size_diags_cong:
  "\<forall>p \<in> set ps. getsize fs2 p = getsize fs1 p \<Longrightarrow> size_diags fs2 ps = size_diags fs1 ps"
  by (induction ps) auto

lemma hash_file_cong:
  "open_rb fs2 p = open_rb fs1 p \<Longrightarrow> hash_file md5 fs2 p 65536 = hash_file md5 fs1 p 65536"
  by (simp add: hash_file_default read_whole_def)

lemma hash_entries_cong:
  "\<forall>p \<in> set ps. open_rb fs2 p = open_rb fs1 p \<Longrightarrow> hash_entries md5 fs2 ps = hash_entries md5 fs1 ps"
  by (induction ps) (auto simp: digest_of_eq read_whole_def)

lemma hash_events_cong:
  "\<forall>p \<in> set ps. open_rb fs2 p = open_rb fs1 p \<Longrightarrow> hash_events md5 fs2 ps = hash_events md5 fs1 ps"
  by (induction ps) (auto simp: events_of_eq read_whole_def)

text \<open>
  C9. Two runs of the scan see the same thing of an unmodified tree: the same
  listing below the root, the same size for every file met by the walk, and the
  same result of opening each of them. The two runs then return the same size
  groups and diagnostics, \<^verbatim>\<open>hash_file\<close> gives every file of the tree the same
  digest, the hash pass returns the same digest groups in the same order with
  the same members, and the script prints the same lines. Whatever differs
  outside the tree does not matter.
\<close>

theorem unmodified_tree_scans_alike:
  assumes "scandir_tree fs2 d = scandir_tree fs1 d"
    and "\<forall>p \<in> set (walk_paths fs1 d). getsize fs2 p = getsize fs1 p"
    and "\<forall>p \<in> set (walk_paths fs1 d). open_rb fs2' p = open_rb fs1' p"
  shows "find_duplicates_by_size fs2 d = find_duplicates_by_size fs1 d \<and>
    (\<forall>p \<in> set (walk_paths fs1 d). hash_file md5 fs2' p 65536 = hash_file md5 fs1' p 65536) \<and>
    find_duplicates_by_hash md5 fs2' (groups (find_duplicates_by_size fs2 d)) =
      find_duplicates_by_hash md5 fs1' (groups (find_duplicates_by_size fs1 d)) \<and>
    main md5 fs2 fs2' d = main md5 fs1 fs1' d"
proof -
  have walk: "walk_paths fs2 d = walk_paths fs1 d"
    using assms(1) by (simp add: walk_paths_def)
  have "size_entries fs2 (walk_paths fs1 d) = size_entries fs1 (walk_paths fs1 d)"
    and "size_diags fs2 (walk_paths fs1 d) = size_diags fs1 (walk_paths fs1 d)"
    using assms(2) by (rule size_entries_cong, rule size_diags_cong)
  then have sizes: "find_duplicates_by_size fs2 d = find_duplicates_by_size fs1 d"
    by (simp add: find_duplicates_by_size_eq walk)
  let ?sd = "groups (find_duplicates_by_size fs1 d)"
  have "set (concat (map snd ?sd)) \<subseteq> set (walk_paths fs1 d)"
  proof
    fix p assume "p \<in> set (concat (map snd ?sd))"
    then obtain s ps where "(s, ps) \<in> set ?sd" "p \<in> set ps"
      by auto
    then show "p \<in> set (walk_paths fs1 d)"
      using size_groups_from_walk by blast
  qed
  with assms(3) have same: "\<forall>p \<in> set (concat (map snd ?sd)). open_rb fs2' p = open_rb fs1' p"
    by blast
  have "hash_entries md5 fs2' (concat (map snd ?sd)) = hash_entries md5 fs1' (concat (map snd ?sd))"
    and "hash_events md5 fs2' (concat (map snd ?sd)) = hash_events md5 fs1' (concat (map snd ?sd))"
    using same by (rule hash_entries_cong, rule hash_events_cong)
  then have hashes: "find_duplicates_by_hash md5 fs2' ?sd = find_duplicates_by_hash md5 fs1' ?sd"
    by (simp add: find_duplicates_by_hash_eq)
  have files: "\<forall>p \<in> set (walk_paths fs1 d). hash_file md5 fs2' p 65536 = hash_file md5 fs1' p 65536"
    using assms(3) by (auto intro: hash_file_cong)
  have "main md5 fs2 fs2' d = main md5 fs1 fs1' d"
    by (simp add: main_def Let_def sizes hashes)
  with sizes hashes files show ?thesis
    by simp
qed

theorem unmodified_tree_scans_alike_witness:
  "getsize demo_fs_elsewhere ''other/new.txt'' \<noteq> getsize demo_fs ''other/new.txt'' \<and>
   scandir_tree demo_fs_elsewhere ''d'' = scandir_tree demo_fs ''d'' \<and>
   map (getsize demo_fs_elsewhere) (walk_paths demo_fs ''d'') =
     map (getsize demo_fs) (walk_paths demo_fs ''d'') \<and>
   map (open_rb demo_fs_elsewhere) (walk_paths demo_fs ''d'') =
     map (open_rb demo_fs) (walk_paths demo_fs ''d'') \<and>
   find_duplicates_by_size demo_fs_elsewhere ''d'' = find_duplicates_by_size demo_fs ''d'' \<and>
   ''d/a.txt'' \<in> set (walk_paths demo_fs ''d'') \<and>
   hash_file demo_digest demo_fs_elsewhere ''d/a.txt'' 65536 =
     hash_file demo_digest demo_fs ''d/a.txt'' 65536 \<and>
   find_duplicates_by_hash demo_digest demo_fs_elsewhere
       (groups (find_duplicates_by_size demo_fs_elsewhere ''d'')) =
     find_duplicates_by_hash demo_digest demo_fs (groups (find_duplicates_by_size demo_fs ''d'')) \<and>
   main demo_digest demo_fs_elsewhere demo_fs_elsewhere ''d'' = main demo_digest demo_fs demo_fs ''d'' \<and>
   groups (find_duplicates_by_hash demo_digest demo_fs (groups (find_duplicates_by_size demo_fs ''d''))) =
     [(hexdigest (demo_digest hello), [''d/a.txt'', ''d/b.txt''])]"
proof -
  have differ: "getsize demo_fs_elsewhere ''other/new.txt'' \<noteq> getsize demo_fs ''other/new.txt''"
    by (simp add: demo_fs_elsewhere_def) (simp add: demo_fs_def)
  have tree: "scandir_tree demo_fs_elsewhere ''d'' = scandir_tree demo_fs ''d''"
    by (simp add: demo_fs_elsewhere_def)
  have stat: "\<forall>p \<in> set (walk_paths demo_fs ''d''). getsize demo_fs_elsewhere p = getsize demo_fs p"
    by (simp add: demo_walk_paths demo_fs_elsewhere_def)
  have opens: "\<forall>p \<in> set (walk_paths demo_fs ''d''). open_rb demo_fs_elsewhere p = open_rb demo_fs p"
    by (simp add: demo_walk_paths demo_fs_elsewhere_def)
  from stat have stat_map: "map (getsize demo_fs_elsewhere) (walk_paths demo_fs ''d'') =
     map (getsize demo_fs) (walk_paths demo_fs ''d'')"
    by simp
  from opens have opens_map: "map (open_rb demo_fs_elsewhere) (walk_paths demo_fs ''d'') =
     map (open_rb demo_fs) (walk_paths demo_fs ''d'')"
    by simp
  have listed: "''d/a.txt'' \<in> set (walk_paths demo_fs ''d'')"
    by (simp add: demo_walk_paths)
  have run: "groups (find_duplicates_by_hash demo_digest demo_fs
               (groups (find_duplicates_by_size demo_fs ''d''))) =
     [(hexdigest (demo_digest hello), [''d/a.txt'', ''d/b.txt''])]"
    by (simp add: demo_size_pass demo_hash_pass)
  note inst = unmodified_tree_scans_alike [OF tree stat opens, of demo_digest]
  from inst listed have same_digest: "hash_file demo_digest demo_fs_elsewhere ''d/a.txt'' 65536 =
     hash_file demo_digest demo_fs ''d/a.txt'' 65536"
    by blast
  from inst differ tree stat_map opens_map listed same_digest run show ?thesis
    by blast
qed

end
